theory Spec2Isabelle
  imports Main "HOL-Library.Word"
begin

section \<open>Bytes, runes and the run-time checks of Go\<close>

text \<open>
  A Go \<^verbatim>\<open>byte\<close> is an 8-bit word and a \<^verbatim>\<open>rune\<close> is a 32-bit word (\<^verbatim>\<open>int32\<close>;
  the code only compares runes for equality and converts them). The conversion
  \<^verbatim>\<open>rune(b)\<close> extends with zeros, \<^verbatim>\<open>byte(r)\<close> keeps the low eight bits.
\<close>

type_synonym byte = "8 word"
type_synonym rune = "32 word"

definition rune_of :: "byte \<Rightarrow> rune" where
  "rune_of b = ucast b"

definition byte_of :: "rune \<Rightarrow> byte" where
  "byte_of r = ucast r"

text \<open>
  What Go checks at run time becomes a value: \<^verbatim>\<open>make([]byte, n)\<close> panics on a
  negative length, and a write \<^verbatim>\<open>xs[i] = v\<close> panics outside the slice.
\<close>

datatype panic = IndexOutOfRange | MakeNegativeLen

definition make_bytes :: "int \<Rightarrow> panic + byte list" where
  "make_bytes n = (if n < 0 then Inl MakeNegativeLen else Inr (replicate (nat n) 0))"

definition store :: "byte list \<Rightarrow> nat \<Rightarrow> byte \<Rightarrow> panic + byte list" where
  "store xs i v = (if i < length xs then Inr (xs[i := v]) else Inl IndexOutOfRange)"

definition pbind :: "panic + 'a \<Rightarrow> ('a \<Rightarrow> panic + 'b) \<Rightarrow> panic + 'b" where
  "pbind m f = (case m of Inl p \<Rightarrow> Inl p | Inr x \<Rightarrow> f x)"


section \<open>The fixed codec (slip.go)\<close>

definition Start :: byte where "Start = 0xAB"
definition StartEsc :: byte where "StartEsc = 0xAC"
definition End :: byte where "End = 0xBC"
definition EndEsc :: byte where "EndEsc = 0xBD"
definition Esc :: byte where "Esc = 0xCD"
definition EscEsc :: byte where "EscEsc = 0xCE"

definition IsReservedChar :: "byte \<Rightarrow> bool" where
  "IsReservedChar b = (b = Start \<or> b = End \<or> b = Esc)"

fun ReservedCharCount :: "byte list \<Rightarrow> nat" where
  "ReservedCharCount [] = 0"
| "ReservedCharCount (b # bs) =
     (if IsReservedChar b then 1 else 0) + ReservedCharCount bs"

text \<open>
  The body of the loop of \<^verbatim>\<open>Encode\<close> for one input byte: the \<^verbatim>\<open>switch\<close> on
  \<^verbatim>\<open>data[i]\<close>, writing into \<^verbatim>\<open>enc\<close> at \<^verbatim>\<open>j\<close> and returning the new \<^verbatim>\<open>j\<close>.
\<close>

definition Encode_step :: "byte \<Rightarrow> byte list \<Rightarrow> nat \<Rightarrow> panic + (byte list \<times> nat)" where
  "Encode_step d enc j =
     (if d = Start then
        pbind (store enc j Esc) (\<lambda>enc.
        pbind (store enc (j + 1) StartEsc) (\<lambda>enc. Inr (enc, j + 2)))
      else if d = End then
        pbind (store enc j Esc) (\<lambda>enc.
        pbind (store enc (j + 1) EndEsc) (\<lambda>enc. Inr (enc, j + 2)))
      else if d = Esc then
        pbind (store enc j Esc) (\<lambda>enc.
        pbind (store enc (j + 1) EscEsc) (\<lambda>enc. Inr (enc, j + 2)))
      else
        pbind (store enc j d) (\<lambda>enc. Inr (enc, j + 1)))"

fun Encode_loop :: "byte list \<Rightarrow> byte list \<Rightarrow> nat \<Rightarrow> panic + (byte list \<times> nat)" where
  "Encode_loop [] enc j = Inr (enc, j)"
| "Encode_loop (d # ds) enc j =
     (case Encode_step d enc j of
        Inl p \<Rightarrow> Inl p
      | Inr (enc', j') \<Rightarrow> Encode_loop ds enc' j')"

definition Encode :: "byte list \<Rightarrow> panic + byte list" where
  "Encode data =
     (let resCount = ReservedCharCount data in
      pbind (make_bytes (int (length data) + 2 + int resCount)) (\<lambda>enc.
      pbind (store enc 0 Start) (\<lambda>enc.
      pbind (Encode_loop data enc 1) (\<lambda>(enc, j).
      store enc (length enc - 1) End))))"

text \<open>
  The errors of \<^verbatim>\<open>Decode\<close> are made with \<^verbatim>\<open>fmt.Errorf\<close>; each constructor stands
  for one message and carries the value the message prints:
  \<^item> \<open>PacketTooShort n\<close>: "packet is too short n";
  \<^item> \<open>ExpectedStart b\<close>: "expected SLIP start (0xAB) but got b";
  \<^item> \<open>ExpectedEnd b\<close>: "expected SLIP end (0xBC) but got b", where the code
    prints \<^verbatim>\<open>enc[0]\<close>;
  \<^item> \<open>EscapeAtEndOfBuffer\<close>: "expected an escaped character but reached the end
    of the buffer";
  \<^item> \<open>ExpectedEscapedChar b\<close>: "expected an escaped character but got b".
\<close>

datatype DecodeError =
    PacketTooShort nat
  | ExpectedStart byte
  | ExpectedEnd byte
  | EscapeAtEndOfBuffer
  | ExpectedEscapedChar byte

text \<open>
  The loop of \<^verbatim>\<open>Decode\<close> over the interior \<^verbatim>\<open>enc[1 : len(enc)-1]\<close>: the first
  argument is what remains from index \<^verbatim>\<open>i\<close> on, so \<^verbatim>\<open>i+1 >= len(enc)\<close> says
  that nothing follows the head; the second is \<^verbatim>\<open>data\<close>, appended to.
\<close>

fun Decode_loop :: "byte list \<Rightarrow> byte list \<Rightarrow> DecodeError + byte list" where
  "Decode_loop [] data = Inr data"
| "Decode_loop (e # es) data =
     (if e = Esc then
        (case es of
           [] \<Rightarrow> Inl EscapeAtEndOfBuffer
         | e' # es' \<Rightarrow>
             if e' = StartEsc then Decode_loop es' (data @ [Start])
             else if e' = EndEsc then Decode_loop es' (data @ [End])
             else if e' = EscEsc then Decode_loop es' (data @ [Esc])
             else Inl (ExpectedEscapedChar e'))
      else Decode_loop es (data @ [e]))"

definition Decode :: "byte list \<Rightarrow> DecodeError + byte list" where
  "Decode enc =
     (if length enc < 2 then Inl (PacketTooShort (length enc))
      else if enc ! 0 \<noteq> Start then Inl (ExpectedStart (enc ! 0))
      else if enc ! (length enc - 1) \<noteq> End then Inl (ExpectedEnd (enc ! 0))
      else Decode_loop (take (length enc - 2) (drop 1 enc)) [])"


section \<open>The configurable codec\<close>

definition StartDisabled :: rune where
  "StartDisabled = - 1"

record Encoding =
  enc_Start :: rune
  enc_EscStart :: rune
  enc_End :: rune
  enc_EscEnd :: rune
  enc_Esc :: rune
  enc_EscEsc :: rune

definition StdEncoding :: Encoding where
  "StdEncoding = \<lparr> enc_Start = StartDisabled, enc_EscStart = StartDisabled,
     enc_End = 0xC0, enc_EscEnd = 0xDC, enc_Esc = 0xDB, enc_EscEsc = 0xDD \<rparr>"

definition BluefruitEncoding :: Encoding where
  "BluefruitEncoding = \<lparr> enc_Start = 0xAB, enc_EscStart = 0xAC,
     enc_End = 0xBC, enc_EscEnd = 0xBD, enc_Esc = 0xCD, enc_EscEsc = 0xCE \<rparr>"

definition minLength :: "Encoding \<Rightarrow> nat" where
  "minLength enc = (if enc_Start enc = StartDisabled then 1 else 2)"

definition isValidControlEscChar :: "Encoding \<Rightarrow> byte \<Rightarrow> bool" where
  "isValidControlEscChar enc b =
     (let rb = rune_of b in
      if enc_EscStart enc = StartDisabled then rb = enc_EscEnd enc \<or> rb = enc_EscEsc enc
      else rb = enc_EscStart enc \<or> rb = enc_EscEnd enc \<or> rb = enc_EscEsc enc)"

definition isValidControlChar :: "Encoding \<Rightarrow> byte \<Rightarrow> bool" where
  "isValidControlChar enc b =
     (let rb = rune_of b in
      if enc_Start enc = StartDisabled then rb = enc_End enc \<or> rb = enc_Esc enc
      else rb = enc_Start enc \<or> rb = enc_End enc \<or> rb = enc_Esc enc)"

fun controlCharCount :: "Encoding \<Rightarrow> byte list \<Rightarrow> nat" where
  "controlCharCount enc [] = 0"
| "controlCharCount enc (b # bs) =
     (if isValidControlChar enc b then 1 else 0) + controlCharCount enc bs"

definition EncodedLen :: "Encoding \<Rightarrow> byte list \<Rightarrow> nat" where
  "EncodedLen enc src = length src + minLength enc + controlCharCount enc src"

text \<open>
  The body of the loop of \<^verbatim>\<open>(*Encoding).Encode\<close>. The inner \<^verbatim>\<open>switch\<close> has no
  \<^verbatim>\<open>default\<close>: when no case matches, \<^verbatim>\<open>dst[j+1]\<close> keeps its value.
\<close>

definition Encoding_Encode_step ::
  "Encoding \<Rightarrow> byte \<Rightarrow> byte list \<Rightarrow> nat \<Rightarrow> panic + (byte list \<times> nat)" where
  "Encoding_Encode_step enc s dst j =
     (if isValidControlChar enc s then
        pbind (store dst j (byte_of (enc_Esc enc))) (\<lambda>dst.
        pbind (if rune_of s = enc_Start enc then store dst (j + 1) (byte_of (enc_EscStart enc))
               else if rune_of s = enc_End enc then store dst (j + 1) (byte_of (enc_EscEnd enc))
               else if rune_of s = enc_Esc enc then store dst (j + 1) (byte_of (enc_EscEsc enc))
               else Inr dst) (\<lambda>dst.
        Inr (dst, j + 2)))
      else
        pbind (store dst j s) (\<lambda>dst. Inr (dst, j + 1)))"

text \<open>
  The loop \<^verbatim>\<open>for i := 0; i < len(src) && (j < len(dst)-1); i++\<close>: it stops when
  the input is used up or when the guard on \<^verbatim>\<open>j\<close> fails, whichever comes first.
\<close>

fun Encoding_Encode_loop ::
  "Encoding \<Rightarrow> byte list \<Rightarrow> byte list \<Rightarrow> nat \<Rightarrow> panic + (byte list \<times> nat)" where
  "Encoding_Encode_loop enc [] dst j = Inr (dst, j)"
| "Encoding_Encode_loop enc (s # ss) dst j =
     (if int j < int (length dst) - 1 then
        (case Encoding_Encode_step enc s dst j of
           Inl p \<Rightarrow> Inl p
         | Inr (dst', j') \<Rightarrow> Encoding_Encode_loop enc ss dst' j')
      else Inr (dst, j))"

definition Encoding_Encode :: "Encoding \<Rightarrow> byte list \<Rightarrow> panic + byte list" where
  "Encoding_Encode enc src =
     pbind (make_bytes (int (EncodedLen enc src))) (\<lambda>dst.
     pbind (if enc_Start enc \<noteq> StartDisabled
            then pbind (store dst 0 (byte_of (enc_Start enc))) (\<lambda>dst. Inr (dst, 1))
            else Inr (dst, 0)) (\<lambda>(dst, j).
     pbind (Encoding_Encode_loop enc src dst j) (\<lambda>(dst, j).
     store dst j (byte_of (enc_End enc)))))"


subsection \<open>The split function\<close>

text \<open>
  The error result of \<^verbatim>\<open>SplitPackets\<close> is \<^verbatim>\<open>nil\<close>, \<^verbatim>\<open>io.EOF\<close> or an
  \<^verbatim>\<open>InvalidControlCharError{Index, ControlChar}\<close>; the token is \<^verbatim>\<open>nil\<close> or a slice.
\<close>

datatype SplitError = EOF | InvalidControlCharError int byte

type_synonym SplitResult = "int \<times> byte list option \<times> SplitError option"

text \<open>
  The first loop: it looks for the first byte equal to \<^verbatim>\<open>enc.End\<close> and counts the
  bytes before it that differ from \<^verbatim>\<open>enc.Esc\<close>. The result is
  \<^verbatim>\<open>(EndIndex, tokenByteCount)\<close>, with \<^verbatim>\<open>EndIndex = -1\<close> when there is none.
\<close>

fun SplitPackets_scan :: "Encoding \<Rightarrow> byte list \<Rightarrow> nat \<Rightarrow> int \<Rightarrow> int \<times> int" where
  "SplitPackets_scan enc [] i tokenByteCount = (- 1, tokenByteCount)"
| "SplitPackets_scan enc (b # bs) i tokenByteCount =
     (if rune_of b = enc_End enc then (int i, tokenByteCount)
      else if rune_of b \<noteq> enc_Esc enc then SplitPackets_scan enc bs (i + 1) (tokenByteCount + 1)
      else SplitPackets_scan enc bs (i + 1) tokenByteCount)"

text \<open>
  The second loop, \<^verbatim>\<open>for i := StartIndex; i < EndIndex; i++\<close>: the list is
  \<^verbatim>\<open>data[i:EndIndex]\<close>, and \<^verbatim>\<open>advance\<close> is already set when the loop starts. Each
  \<^verbatim>\<open>return\<close> inside the loop gives back the named results as they stand.
\<close>

fun SplitPackets_decode ::
  "Encoding \<Rightarrow> int \<Rightarrow> byte list \<Rightarrow> nat \<Rightarrow> bool \<Rightarrow> byte list \<Rightarrow> nat \<Rightarrow> panic + SplitResult" where
  "SplitPackets_decode enc advance [] i inEscSeq token j = Inr (advance, Some token, None)"
| "SplitPackets_decode enc advance (b # bs) i inEscSeq token j =
     (if inEscSeq then
        if \<not> isValidControlEscChar enc b
        then Inr (advance, Some token, Some (InvalidControlCharError (int i) b))
        else if rune_of b = enc_EscStart enc then
          (case store token j (byte_of (enc_Start enc)) of
             Inl p \<Rightarrow> Inl p
           | Inr token' \<Rightarrow> SplitPackets_decode enc advance bs (i + 1) False token' (j + 1))
        else if rune_of b = enc_EscEnd enc then
          (case store token j (byte_of (enc_End enc)) of
             Inl p \<Rightarrow> Inl p
           | Inr token' \<Rightarrow> SplitPackets_decode enc advance bs (i + 1) False token' (j + 1))
        else if rune_of b = enc_EscEsc enc then
          (case store token j (byte_of (enc_Esc enc)) of
             Inl p \<Rightarrow> Inl p
           | Inr token' \<Rightarrow> SplitPackets_decode enc advance bs (i + 1) False token' (j + 1))
        else Inr (advance, Some token, None)
      else if rune_of b = enc_Esc enc then
        SplitPackets_decode enc advance bs (i + 1) True token j
      else
        (case store token j b of
           Inl p \<Rightarrow> Inl p
         | Inr token' \<Rightarrow> SplitPackets_decode enc advance bs (i + 1) False token' (j + 1)))"

definition Encoding_SplitPackets :: "Encoding \<Rightarrow> byte list \<Rightarrow> bool \<Rightarrow> panic + SplitResult" where
  "Encoding_SplitPackets enc data atEOF =
     (case SplitPackets_scan enc data 0 0 of (EndIndex, tokenByteCount) \<Rightarrow>
        if EndIndex = - 1 then
          (if atEOF then Inr (int (length data), Some data, Some EOF)
           else Inr (0, None, None))
        else
          pbind (if enc_Start enc \<noteq> StartDisabled then
                   (case data of
                      [] \<Rightarrow> Inl IndexOutOfRange
                    | d0 # _ \<Rightarrow>
                        if rune_of d0 = enc_Start enc then Inr (1, tokenByteCount - 1)
                        else Inr (0, tokenByteCount))
                 else Inr (0, tokenByteCount)) (\<lambda>(StartIndex, tokenByteCount).
          pbind (make_bytes tokenByteCount) (\<lambda>token.
          SplitPackets_decode enc (EndIndex + 1)
            (drop StartIndex (take (nat EndIndex) data)) StartIndex False token 0)))"

text \<open>The input of the standard-profile scanner test.\<close>

definition TestStandardScanner_input :: "byte list" where
  "TestStandardScanner_input =
     [0x01, 0x02, 0x03, 0xC0, 0x04, 0xDB, 0xDC, 0xC0, 0xDB, 0xDD, 0x05, 0xC0]"


section \<open>The encoding as the specification describes it\<close>

text \<open>
  The specification's encoder, written from its words (section 4.2): emit the start byte
  if it is enabled; for each input byte, a control byte becomes the escape byte followed
  by its substitute (start to startEscaped, end to endEscaped, esc to escEscaped) and any
  other byte is emitted unchanged; emit the end byte last.
\<close>

definition spec_substitute :: "Encoding \<Rightarrow> byte \<Rightarrow> byte" where
  "spec_substitute enc s =
     (if rune_of s = enc_Start enc then byte_of (enc_EscStart enc)
      else if rune_of s = enc_End enc then byte_of (enc_EscEnd enc)
      else byte_of (enc_EscEsc enc))"

definition spec_escape :: "Encoding \<Rightarrow> byte \<Rightarrow> byte list" where
  "spec_escape enc s =
     (if isValidControlChar enc s then [byte_of (enc_Esc enc), spec_substitute enc s] else [s])"

definition spec_encode :: "Encoding \<Rightarrow> byte list \<Rightarrow> byte list" where
  "spec_encode enc src =
     (if enc_Start enc \<noteq> StartDisabled then [byte_of (enc_Start enc)] else [])
       @ concat (map (spec_escape enc) src) @ [byte_of (enc_End enc)]"

text \<open>
  The buffer and the index with which the loop of \<^verbatim>\<open>(*Encoding).Encode\<close> starts:
  \<^verbatim>\<open>EncodedLen\<close> zero bytes, the first overwritten by the start byte when it is enabled.
\<close>

definition Encode_initial :: "Encoding \<Rightarrow> byte list \<Rightarrow> byte list \<times> nat" where
  "Encode_initial enc src =
     (if enc_Start enc \<noteq> StartDisabled
      then (byte_of (enc_Start enc) # replicate (EncodedLen enc src - 1) 0, 1)
      else (replicate (EncodedLen enc src) 0, 0))"

section \<open>Well-formed encodings of the fixed codec\<close>

text \<open>
  The vocabulary of the specification's decoder (section 4.3), written from its words: the
  three escaped substitutes and the control byte each stands for; an interior that is a
  sequence of plain bytes and escape pairs; a buffer with both framing bytes; an interior
  whose last escape byte has no follower; an escape byte followed by a byte that is no
  substitute.
\<close>

definition is_substitute :: "byte \<Rightarrow> bool" where
  "is_substitute c = (c = StartEsc \<or> c = EndEsc \<or> c = EscEsc)"

definition original :: "byte \<Rightarrow> byte" where
  "original c = (if c = StartEsc then Start else if c = EndEsc then End else Esc)"

fun well_escaped :: "byte list \<Rightarrow> bool" where
  "well_escaped [] = True"
| "well_escaped (b # bs) =
     (if b = Esc then (case bs of [] \<Rightarrow> False | c # cs \<Rightarrow> is_substitute c \<and> well_escaped cs)
      else well_escaped bs)"

fun unescape :: "byte list \<Rightarrow> byte list" where
  "unescape [] = []"
| "unescape (b # bs) =
     (if b = Esc then (case bs of [] \<Rightarrow> [] | c # cs \<Rightarrow> original c # unescape cs)
      else b # unescape bs)"

definition interior :: "byte list \<Rightarrow> byte list" where
  "interior enc = butlast (tl enc)"

definition well_framed :: "byte list \<Rightarrow> bool" where
  "well_framed enc = (2 \<le> length enc \<and> hd enc = Start \<and> last enc = End)"

definition truncated_escape :: "byte list \<Rightarrow> bool" where
  "truncated_escape mid = (mid \<noteq> [] \<and> last mid = Esc \<and> well_escaped (butlast mid))"

definition invalid_escape_at :: "byte list \<Rightarrow> nat \<Rightarrow> bool" where
  "invalid_escape_at mid i =
     (i + 1 < length mid \<and> well_escaped (take i mid) \<and> mid ! i = Esc
        \<and> \<not> is_substitute (mid ! (i + 1)))"

definition esc_is_last :: "byte list \<Rightarrow> bool" where
  "esc_is_last mid = (mid \<noteq> [] \<and> last mid = Esc)"

definition bad_follower :: "byte list \<Rightarrow> bool" where
  "bad_follower mid = (\<exists>(a, b) \<in> set (zip mid (tl mid)). a = Esc \<and> \<not> is_substitute b)"

section \<open>Configurations and escaped spans of the configurable codec\<close>

text \<open>
  The invariant the specification asks of a configuration (section 3): the active control
  bytes and substitutes are bytes and pairwise distinct, where the start byte and its
  substitute are active only when the start byte is enabled.
\<close>

definition is_byte :: "rune \<Rightarrow> bool" where
  "is_byte r = (r < 256)"

definition valid_Encoding :: "Encoding \<Rightarrow> bool" where
  "valid_Encoding enc =
     (if enc_Start enc = StartDisabled
      then is_byte (enc_End enc) \<and> is_byte (enc_EscEnd enc)
         \<and> is_byte (enc_Esc enc) \<and> is_byte (enc_EscEsc enc)
         \<and> distinct [enc_End enc, enc_EscEnd enc, enc_Esc enc, enc_EscEsc enc]
      else is_byte (enc_Start enc) \<and> is_byte (enc_EscStart enc)
         \<and> is_byte (enc_End enc) \<and> is_byte (enc_EscEnd enc)
         \<and> is_byte (enc_Esc enc) \<and> is_byte (enc_EscEsc enc)
         \<and> distinct [enc_Start enc, enc_EscStart enc, enc_End enc, enc_EscEnd enc,
              enc_Esc enc, enc_EscEsc enc])"

text \<open>
  Two further conditions on the fields, which the invariant implies only when the start
  byte is enabled: the field \<^verbatim>\<open>EscStart\<close> differs from the other two substitutes, and the
  escape byte differs from the start byte and from the three substitutes.
\<close>

definition EscStart_apart :: "Encoding \<Rightarrow> bool" where
  "EscStart_apart enc =
     (enc_EscStart enc \<noteq> enc_EscEnd enc \<and> enc_EscStart enc \<noteq> enc_EscEsc enc)"

definition Esc_apart :: "Encoding \<Rightarrow> bool" where
  "Esc_apart enc =
     (enc_Start enc \<noteq> enc_Esc enc \<and> enc_EscStart enc \<noteq> enc_Esc enc
        \<and> enc_EscEnd enc \<noteq> enc_Esc enc \<and> enc_EscEsc enc \<noteq> enc_Esc enc)"

text \<open>
  A configuration without start byte, with the bytes of the standard profile, whose field
  \<^verbatim>\<open>EscStart\<close> holds the value of \<^verbatim>\<open>EscEnd\<close>.
\<close>

definition StartlessEncoding :: Encoding where
  "StartlessEncoding = \<lparr> enc_Start = StartDisabled, enc_EscStart = 0xDC,
     enc_End = 0xC0, enc_EscEnd = 0xDC, enc_Esc = 0xDB, enc_EscEsc = 0xDD \<rparr>"

text \<open>
  The span that the split function decodes, in the words of section 4.4: the number of
  leading start bytes it skips (0 or 1), a span of plain bytes and valid escape pairs, and
  the bytes such a span stands for.
\<close>

definition leading_start :: "Encoding \<Rightarrow> byte list \<Rightarrow> nat" where
  "leading_start enc data =
     (case data of [] \<Rightarrow> 0
      | d0 # _ \<Rightarrow> if enc_Start enc \<noteq> StartDisabled \<and> rune_of d0 = enc_Start enc then 1 else 0)"

definition cfg_original :: "Encoding \<Rightarrow> byte \<Rightarrow> byte" where
  "cfg_original enc c =
     (if rune_of c = enc_EscStart enc then byte_of (enc_Start enc)
      else if rune_of c = enc_EscEnd enc then byte_of (enc_End enc)
      else byte_of (enc_Esc enc))"

fun cfg_well_escaped :: "Encoding \<Rightarrow> byte list \<Rightarrow> bool" where
  "cfg_well_escaped enc [] = True"
| "cfg_well_escaped enc (b # bs) =
     (if rune_of b = enc_Esc enc
      then (case bs of [] \<Rightarrow> False
            | c # cs \<Rightarrow> isValidControlEscChar enc c \<and> cfg_well_escaped enc cs)
      else cfg_well_escaped enc bs)"

fun cfg_unescape :: "Encoding \<Rightarrow> byte list \<Rightarrow> byte list" where
  "cfg_unescape enc [] = []"
| "cfg_unescape enc (b # bs) =
     (if rune_of b = enc_Esc enc
      then (case bs of [] \<Rightarrow> [] | c # cs \<Rightarrow> cfg_original enc c # cfg_unescape enc cs)
      else b # cfg_unescape enc bs)"

text \<open>The input of the Bluefruit scanner test with an invalid control character.\<close>

definition TestBluefruitScanner_invalid :: "byte list" where
  "TestBluefruitScanner_invalid = [0xAB, 0x04, 0xCD, 0xAB, 0xCD, 0xBD, 0xBC]"


section \<open>Conversions between bytes and runes\<close>

lemma unat_rune_of: "unat (rune_of b) = unat b"
proof -
  have "unat b < 2 ^ 8" using unsigned_less [of b] by simp
  then have "unat b < 2 ^ 32" by simp
  then show ?thesis unfolding rune_of_def
    by (simp add: unsigned_ucast_eq take_bit_nat_eq_self)
qed

lemma rune_of_inj: "(rune_of a = rune_of b) = (a = b)"
  by (simp add: word_unat_eq_iff unat_rune_of)

lemma byte_of_rune_of: "byte_of (rune_of b) = b"
proof -
  have "unat b < 2 ^ 8" using unsigned_less [of b] by simp
  then show ?thesis
    by (simp add: word_unat_eq_iff byte_of_def unsigned_ucast_eq unat_rune_of take_bit_nat_eq_self)
qed

lemma rune_of_lt: "rune_of b < 256"
  using unsigned_less [of b, where 'a=nat] by (simp add: word_less_nat_alt unat_rune_of)

lemma rune_of_byte_of: "r < 256 \<Longrightarrow> rune_of (byte_of r) = r"
  by (simp add: word_unat_eq_iff unat_rune_of byte_of_def unsigned_ucast_eq word_less_nat_alt
      take_bit_nat_eq_self)

lemma rune_of_not_disabled: "rune_of b \<noteq> StartDisabled"
  using rune_of_lt [of b] by (auto simp: StartDisabled_def)

lemma rune_of_consts:
  "(rune_of d = 0xAB) = (d = Start)" "(rune_of d = 0xBC) = (d = End)" "(rune_of d = 0xCD) = (d = Esc)"
proof -
  have "rune_of Start = 0xAB" "rune_of End = 0xBC" "rune_of Esc = 0xCD"
    by (simp_all add: rune_of_def Start_def End_def Esc_def)
  then show "(rune_of d = 0xAB) = (d = Start)" "(rune_of d = 0xBC) = (d = End)"
    "(rune_of d = 0xCD) = (d = Esc)"
    using rune_of_inj [of d Start] rune_of_inj [of d End] rune_of_inj [of d Esc] by simp_all
qed


section \<open>The encoders fill their buffer exactly\<close>

lemma store_fill: "store (pre @ 0 # zs) (length pre) v = Inr (pre @ v # zs)"
  by (simp add: store_def)

lemma store_fill2: "store (pre @ u # 0 # zs) (Suc (length pre)) v = Inr (pre @ u # v # zs)"
  by (simp add: store_def list_update_append)

lemma make_bytes_nat: "make_bytes (int n) = Inr (replicate n 0)"
  by (simp add: make_bytes_def)

lemma length_concat_escape:
  "length (concat (map (spec_escape enc) src)) = length src + controlCharCount enc src"
  by (induction src) (simp_all add: spec_escape_def)

lemma controlCharCount_filter:
  "controlCharCount enc src = length (filter (isValidControlChar enc) src)"
  by (induction src) simp_all

lemma Encoding_Encode_step_fill:
  assumes "length (spec_escape enc s) \<le> k"
  shows "Encoding_Encode_step enc s (pre @ replicate k 0) (length pre) =
           Inr (pre @ spec_escape enc s @ replicate (k - length (spec_escape enc s)) 0,
                length pre + length (spec_escape enc s))"
proof (cases "isValidControlChar enc s")
  case False
  with assms obtain k' where k: "k = Suc k'" by (cases k) (auto simp: spec_escape_def)
  show ?thesis using False
    by (simp add: Encoding_Encode_step_def spec_escape_def k store_fill pbind_def)
next
  case True
  with assms obtain k' where k: "k = Suc (Suc k')"
    by (cases k; cases "k - 1") (auto simp: spec_escape_def)
  have m: "rune_of s = enc_Start enc \<or> rune_of s = enc_End enc \<or> rune_of s = enc_Esc enc"
    using True by (auto simp: isValidControlChar_def Let_def split: if_splits)
  show ?thesis using True m
    by (auto simp add: Encoding_Encode_step_def spec_escape_def spec_substitute_def k
        store_fill store_fill2 pbind_def)
qed

lemma Encoding_Encode_loop_fill:
  "length (concat (map (spec_escape enc) ss)) < k \<Longrightarrow>
   Encoding_Encode_loop enc ss (pre @ replicate k 0) (length pre) =
     Inr (pre @ concat (map (spec_escape enc) ss)
            @ replicate (k - length (concat (map (spec_escape enc) ss))) 0,
          length pre + length (concat (map (spec_escape enc) ss)))"
proof (induction ss arbitrary: pre k)
  case Nil
  then show ?case by simp
next
  case (Cons s ss)
  let ?e = "spec_escape enc s"
  have le: "length ?e \<le> k" and lt: "length (concat (map (spec_escape enc) ss)) < k - length ?e"
    using Cons.prems by simp_all
  have pos: "1 \<le> length ?e" by (simp add: spec_escape_def)
  have k2: "2 \<le> k" using le lt pos by linarith
  have guard: "int (length pre) < int (length (pre @ replicate k 0)) - 1"
    using k2 by simp
  have step: "Encoding_Encode_step enc s (pre @ replicate k 0) (length pre) =
      Inr ((pre @ ?e) @ replicate (k - length ?e) 0, length (pre @ ?e))"
    using Encoding_Encode_step_fill [OF le, of pre] by simp
  show ?case
    using guard step Cons.IH [OF lt, of "pre @ ?e"]
    by (simp del: append_assoc add: append_assoc [symmetric])
qed

lemma Encoding_Encode_spec: "Encoding_Encode enc src = Inr (spec_encode enc src)"
proof -
  let ?body = "concat (map (spec_escape enc) src)"
  have len: "length ?body = length src + controlCharCount enc src"
    by (rule length_concat_escape)
  show ?thesis
  proof (cases "enc_Start enc = StartDisabled")
    case True
    have n: "EncodedLen enc src = Suc (length ?body)"
      using True by (simp add: EncodedLen_def minLength_def len)
    have loop: "Encoding_Encode_loop enc src ([] @ replicate (Suc (length ?body)) 0)
          (length ([]::byte list))
        = Inr ([] @ ?body @ replicate (Suc (length ?body) - length ?body) 0,
               length ([]::byte list) + length ?body)"
      by (rule Encoding_Encode_loop_fill) simp
    have mk: "make_bytes (int (EncodedLen enc src)) = Inr (replicate (Suc (length ?body)) 0)"
      unfolding n by (rule make_bytes_nat)
    show ?thesis unfolding Encoding_Encode_def mk using True loop
      by (simp add: pbind_def spec_encode_def store_fill)
  next
    case False
    have n: "EncodedLen enc src = Suc (Suc (length ?body))"
      using False by (simp add: EncodedLen_def minLength_def len)
    let ?s = "byte_of (enc_Start enc)"
    have loop: "Encoding_Encode_loop enc src ([?s] @ replicate (Suc (length ?body)) 0) (length [?s])
        = Inr ([?s] @ ?body @ replicate (Suc (length ?body) - length ?body) 0,
               length [?s] + length ?body)"
      by (rule Encoding_Encode_loop_fill) simp
    have fin: "store ((?s # ?body) @ [0]) (length (?s # ?body)) v = Inr ((?s # ?body) @ [v])" for v
      by (rule store_fill)
    have mk: "make_bytes (int (EncodedLen enc src)) = Inr (replicate (Suc (Suc (length ?body))) 0)"
      unfolding n by (rule make_bytes_nat)
    show ?thesis unfolding Encoding_Encode_def mk using False loop fin
      by (simp add: pbind_def spec_encode_def store_def)
  qed
qed

lemma length_spec_encode: "length (spec_encode enc src) = EncodedLen enc src"
  by (simp add: spec_encode_def length_concat_escape EncodedLen_def minLength_def)

lemma Encoding_Encode_loop_initial:
  "Encoding_Encode_loop enc src (fst (Encode_initial enc src)) (snd (Encode_initial enc src)) =
     Inr (butlast (spec_encode enc src) @ [0], EncodedLen enc src - 1)"
proof -
  let ?body = "concat (map (spec_escape enc) src)"
  have len: "length ?body = length src + controlCharCount enc src"
    by (rule length_concat_escape)
  show ?thesis
  proof (cases "enc_Start enc = StartDisabled")
    case True
    have n: "EncodedLen enc src = Suc (length ?body)"
      using True by (simp add: EncodedLen_def minLength_def len)
    have loop: "Encoding_Encode_loop enc src ([] @ replicate (Suc (length ?body)) 0)
          (length ([]::byte list))
        = Inr ([] @ ?body @ replicate (Suc (length ?body) - length ?body) 0,
               length ([]::byte list) + length ?body)"
      by (rule Encoding_Encode_loop_fill) simp
    show ?thesis using True loop
      by (simp add: Encode_initial_def n spec_encode_def butlast_append)
  next
    case False
    have n: "EncodedLen enc src = Suc (Suc (length ?body))"
      using False by (simp add: EncodedLen_def minLength_def len)
    let ?s = "byte_of (enc_Start enc)"
    have loop: "Encoding_Encode_loop enc src ([?s] @ replicate (Suc (length ?body)) 0) (length [?s])
        = Inr ([?s] @ ?body @ replicate (Suc (length ?body) - length ?body) 0,
               length [?s] + length ?body)"
      by (rule Encoding_Encode_loop_fill) simp
    show ?thesis using False loop
      by (simp add: Encode_initial_def n spec_encode_def butlast_append)
  qed
qed


lemma Encoding_Encode_initial:
  "Encoding_Encode enc src =
     pbind (Encoding_Encode_loop enc src (fst (Encode_initial enc src))
              (snd (Encode_initial enc src)))
       (\<lambda>(dst, j). store dst j (byte_of (enc_End enc)))"
proof -
  have "0 < EncodedLen enc src" by (simp add: EncodedLen_def minLength_def)
  then obtain n where n: "EncodedLen enc src = Suc n"
    by (cases "EncodedLen enc src") simp_all
  have mk: "make_bytes (int (EncodedLen enc src)) = Inr (replicate (Suc n) 0)"
    unfolding n by (rule make_bytes_nat)
  show ?thesis
    unfolding Encoding_Encode_def mk
    by (simp add: Encode_initial_def n pbind_def store_def)
qed


subsection \<open>The fixed encoder against the Bluefruit profile\<close>

lemma Bluefruit_isValidControlChar: "isValidControlChar BluefruitEncoding d = IsReservedChar d"
  by (simp add: isValidControlChar_def BluefruitEncoding_def StartDisabled_def IsReservedChar_def
      rune_of_consts)

lemma Bluefruit_controlCharCount: "controlCharCount BluefruitEncoding data = ReservedCharCount data"
  by (induction data) (simp_all add: Bluefruit_isValidControlChar)

lemma Bluefruit_bytes:
  "byte_of (enc_Start BluefruitEncoding) = Start" "byte_of (enc_EscStart BluefruitEncoding) = StartEsc"
  "byte_of (enc_End BluefruitEncoding) = End" "byte_of (enc_EscEnd BluefruitEncoding) = EndEsc"
  "byte_of (enc_Esc BluefruitEncoding) = Esc" "byte_of (enc_EscEsc BluefruitEncoding) = EscEsc"
  by (simp_all add: BluefruitEncoding_def byte_of_def Start_def StartEsc_def End_def EndEsc_def
      Esc_def EscEsc_def)

lemma Bluefruit_runes:
  "(rune_of x = enc_Start BluefruitEncoding) = (x = Start)"
  "(rune_of x = enc_End BluefruitEncoding) = (x = End)"
  "(rune_of x = enc_Esc BluefruitEncoding) = (x = Esc)"
  by (simp_all add: BluefruitEncoding_def rune_of_consts)

lemma fixed_bytes_distinct:
  "End \<noteq> Start" "Esc \<noteq> Start" "Esc \<noteq> End"
  by (simp_all add: Start_def End_def Esc_def)

lemma Encode_step_Bluefruit: "Encode_step d enc j = Encoding_Encode_step BluefruitEncoding d enc j"
  by (simp add: Encode_step_def Encoding_Encode_step_def Bluefruit_isValidControlChar
      IsReservedChar_def Bluefruit_bytes Bluefruit_runes fixed_bytes_distinct)

lemma Encode_loop_fill:
  "length (concat (map (spec_escape BluefruitEncoding) ss)) < k \<Longrightarrow>
   Encode_loop ss (pre @ replicate k 0) (length pre) =
     Inr (pre @ concat (map (spec_escape BluefruitEncoding) ss)
            @ replicate (k - length (concat (map (spec_escape BluefruitEncoding) ss))) 0,
          length pre + length (concat (map (spec_escape BluefruitEncoding) ss)))"
proof (induction ss arbitrary: pre k)
  case Nil
  then show ?case by simp
next
  case (Cons s ss)
  let ?e = "spec_escape BluefruitEncoding s"
  have le: "length ?e \<le> k"
    and lt: "length (concat (map (spec_escape BluefruitEncoding) ss)) < k - length ?e"
    using Cons.prems by simp_all
  have step: "Encode_step s (pre @ replicate k 0) (length pre) =
      Inr ((pre @ ?e) @ replicate (k - length ?e) 0, length (pre @ ?e))"
    using Encoding_Encode_step_fill [OF le, of pre] by (simp add: Encode_step_Bluefruit)
  show ?case
    using step Cons.IH [OF lt, of "pre @ ?e"]
    by (simp del: append_assoc add: append_assoc [symmetric])
qed

lemma Encode_spec: "Encode data = Inr (spec_encode BluefruitEncoding data)"
proof -
  let ?body = "concat (map (spec_escape BluefruitEncoding) data)"
  have len: "length ?body = length data + ReservedCharCount data"
    by (simp add: length_concat_escape Bluefruit_controlCharCount)
  have n: "int (length data) + 2 + int (ReservedCharCount data) = int (Suc (Suc (length ?body)))"
    by (simp add: len)
  have loop: "Encode_loop data ([Start] @ replicate (Suc (length ?body)) 0) (length [Start])
      = Inr ([Start] @ ?body @ replicate (Suc (length ?body) - length ?body) 0,
             length [Start] + length ?body)"
    by (rule Encode_loop_fill) simp
  have fin: "store ((Start # ?body) @ [0]) (length (Start # ?body)) v = Inr ((Start # ?body) @ [v])"
    for v by (rule store_fill)
  have en: "enc_Start BluefruitEncoding \<noteq> StartDisabled"
    by (simp add: BluefruitEncoding_def StartDisabled_def)
  have mk: "make_bytes (int (length data) + 2 + int (ReservedCharCount data))
      = Inr (replicate (Suc (Suc (length ?body))) 0)"
    unfolding n by (rule make_bytes_nat)
  show ?thesis
    unfolding Encode_def Let_def mk
    using loop fin en
    by (simp add: pbind_def spec_encode_def store_def Bluefruit_bytes)
qed


section \<open>The fixed decoder\<close>

lemma Decode_loop_prefix:
  "well_escaped pre \<Longrightarrow> Decode_loop (pre @ rest) acc = Decode_loop rest (acc @ unescape pre)"
proof (induction pre arbitrary: acc rule: well_escaped.induct)
  case 1
  then show ?case by simp
next
  case (2 b bs)
  show ?case
  proof (cases "b = Esc")
    case False
    with 2 show ?thesis by simp
  next
    case True
    with "2.prems" obtain c cs where bs: "bs = c # cs" and sub: "is_substitute c" and we: "well_escaped cs"
      by (cases bs) auto
    have ih: "Decode_loop (cs @ rest) acc' = Decode_loop rest (acc' @ unescape cs)" for acc'
      using "2.IH"(1) [OF True bs we] .
    show ?thesis using True bs sub ih
      by (auto simp: is_substitute_def original_def)
  qed
qed

lemma subst_distinct:
  "StartEsc \<noteq> Esc" "EndEsc \<noteq> Esc" "EscEsc \<noteq> Esc" "StartEsc \<noteq> EndEsc" "StartEsc \<noteq> EscEsc" "EndEsc \<noteq> EscEsc"
  by (simp_all add: StartEsc_def EndEsc_def EscEsc_def Esc_def)

lemma Decode_loop_truncated:
  assumes "truncated_escape mid"
  shows "Decode_loop mid acc = Inl EscapeAtEndOfBuffer"
proof -
  from assms have m: "mid = butlast mid @ [Esc]" and we: "well_escaped (butlast mid)"
    by (auto simp: truncated_escape_def dest: append_butlast_last_id [symmetric])
  have "Decode_loop (butlast mid @ [Esc]) acc = Inl EscapeAtEndOfBuffer"
    by (simp add: Decode_loop_prefix [OF we])
  with m show ?thesis by simp
qed

lemma Decode_loop_invalid:
  assumes "invalid_escape_at mid i"
  shows "Decode_loop mid acc = Inl (ExpectedEscapedChar (mid ! (i + 1)))"
proof -
  from assms have len: "i + 1 < length mid" and we: "well_escaped (take i mid)"
    and e: "mid ! i = Esc" and ns: "\<not> is_substitute (mid ! (i + 1))"
    by (auto simp: invalid_escape_at_def)
  have "mid = take i mid @ mid ! i # mid ! (i + 1) # drop (i + 2) mid"
    using len by (metis Suc_eq_plus1 Suc_lessD add_2_eq_Suc' id_take_nth_drop Cons_nth_drop_Suc)
  then have m: "mid = take i mid @ Esc # mid ! (i + 1) # drop (i + 2) mid"
    using e by simp
  have "Decode_loop (take i mid @ Esc # mid ! (i + 1) # drop (i + 2) mid) acc
      = Inl (ExpectedEscapedChar (mid ! (i + 1)))"
    using ns by (simp add: Decode_loop_prefix [OF we] is_substitute_def)
  with m show ?thesis by simp
qed

lemma well_escaped_lit: "b \<noteq> Esc \<Longrightarrow> well_escaped (b # bs) = well_escaped bs"
  by simp

lemma escape_trichotomy:
  "well_escaped mid \<or> truncated_escape mid \<or> (\<exists>i. invalid_escape_at mid i)"
proof (induction mid rule: well_escaped.induct)
  case 1
  then show ?case by simp
next
  case (2 b bs)
  show ?case
  proof (cases "b = Esc")
    case False
    from "2.IH"(2) [OF False] consider "well_escaped bs" | "truncated_escape bs"
      | i where "invalid_escape_at bs i" by blast
    then show ?thesis
    proof cases
      case 1 then show ?thesis using False by simp
    next
      case 2 then have "truncated_escape (b # bs)" using False
        by (auto simp: truncated_escape_def)
      then show ?thesis by blast
    next
      case 3 then have "invalid_escape_at (b # bs) (Suc i)" using False
        by (auto simp: invalid_escape_at_def)
      then show ?thesis by blast
    qed
  next
    case True
    show ?thesis
    proof (cases bs)
      case Nil
      then have "truncated_escape (b # bs)" using True by (simp add: truncated_escape_def)
      then show ?thesis by blast
    next
      case (Cons c cs)
      show ?thesis
      proof (cases "is_substitute c")
        case False
        then have "invalid_escape_at (b # bs) 0" using True Cons
          by (simp add: invalid_escape_at_def)
        then show ?thesis by blast
      next
        case sub: True
        from "2.IH"(1) [OF True Cons] consider "well_escaped cs" | "truncated_escape cs"
          | i where "invalid_escape_at cs i" by blast
        then show ?thesis
        proof cases
          case 1 then show ?thesis using True Cons sub by simp
        next
          case 2 then have "truncated_escape (b # bs)" using True Cons sub
            by (auto simp: truncated_escape_def)
          then show ?thesis by blast
        next
          case 3 then have "invalid_escape_at (b # bs) (Suc (Suc i))" using True Cons sub
            by (auto simp: invalid_escape_at_def)
          then show ?thesis by blast
        qed
      qed
    qed
  qed
qed


lemma is_substitute_not_Esc: "is_substitute c \<Longrightarrow> c \<noteq> Esc"
  by (auto simp: is_substitute_def StartEsc_def EndEsc_def EscEsc_def Esc_def)

lemma zip_tl_Cons: "set (zip (b # bs) (tl (b # bs))) = (case bs of [] \<Rightarrow> {} | c # cs \<Rightarrow> insert (b, c) (set (zip bs (tl bs))))"
  by (cases bs) simp_all

lemma well_escaped_literal:
  "well_escaped mid \<Longrightarrow> \<not> esc_is_last mid \<and> \<not> bad_follower mid"
proof (induction mid rule: well_escaped.induct)
  case 1
  then show ?case by (simp add: esc_is_last_def bad_follower_def)
next
  case (2 b bs)
  show ?case
  proof (cases "b = Esc")
    case False
    with "2.prems" have we: "well_escaped bs" by simp
    from "2.IH"(2) [OF False we] have ih: "\<not> esc_is_last bs" "\<not> bad_follower bs" by simp_all
    have a: "\<not> esc_is_last (b # bs)" using ih(1) False by (auto simp: esc_is_last_def)
    have b: "\<not> bad_follower (b # bs)" using ih(2) False
      unfolding bad_follower_def zip_tl_Cons by (cases bs) auto
    from a b show ?thesis by simp
  next
    case True
    with "2.prems" obtain c cs where bs: "bs = c # cs" and sub: "is_substitute c"
      and we: "well_escaped cs"
      by (cases bs) auto
    from "2.IH"(1) [OF True bs we] have ih: "\<not> esc_is_last cs" "\<not> bad_follower cs" by simp_all
    have ne: "c \<noteq> Esc" using sub by (rule is_substitute_not_Esc)
    have a: "\<not> esc_is_last (b # bs)" using ih(1) ne bs by (auto simp: esc_is_last_def)
    have b: "\<not> bad_follower (b # bs)" using ih(2) ne sub bs
      unfolding bad_follower_def zip_tl_Cons by (cases cs) auto
    from a b show ?thesis by simp
  qed
qed

lemma truncated_escape_literal: "truncated_escape mid \<Longrightarrow> esc_is_last mid"
  by (simp add: truncated_escape_def esc_is_last_def)

lemma invalid_escape_literal:
  assumes "invalid_escape_at mid i"
  shows "bad_follower mid"
proof -
  from assms have len: "i + 1 < length mid" and e: "mid ! i = Esc"
    and ns: "\<not> is_substitute (mid ! (i + 1))"
    by (auto simp: invalid_escape_at_def)
  have "i < length (zip mid (tl mid))" using len by simp
  then have "zip mid (tl mid) ! i \<in> set (zip mid (tl mid))" by (rule nth_mem)
  moreover have "zip mid (tl mid) ! i = (mid ! i, mid ! (i + 1))"
    using len by (simp add: nth_tl)
  ultimately show ?thesis using e ns unfolding bad_follower_def by force
qed

lemma Decode_well_framed: 
  assumes "well_framed enc"
  shows "Decode enc = Decode_loop (interior enc) []"
proof -
  from assms have len: "2 \<le> length enc" and h: "hd enc = Start" and l: "last enc = End"
    by (simp_all add: well_framed_def)
  have ne: "enc \<noteq> []" using len by auto
  have h': "enc ! 0 = Start" using h ne by (simp add: hd_conv_nth)
  have l': "enc ! (length enc - 1) = End" using l ne by (simp add: last_conv_nth)
  have "take (length enc - 2) (drop 1 enc) = butlast (tl enc)"
    by (simp add: butlast_conv_take drop_Suc numeral_2_eq_2)
  then show ?thesis using len h' l' by (simp add: Decode_def interior_def)
qed

lemma Decode_not_framed:
  "length enc < 2 \<Longrightarrow> Decode enc = Inl (PacketTooShort (length enc))"
  "2 \<le> length enc \<Longrightarrow> hd enc \<noteq> Start \<Longrightarrow> Decode enc = Inl (ExpectedStart (hd enc))"
  "2 \<le> length enc \<Longrightarrow> hd enc = Start \<Longrightarrow> last enc \<noteq> End \<Longrightarrow> Decode enc = Inl (ExpectedEnd (hd enc))"
proof -
  show "length enc < 2 \<Longrightarrow> Decode enc = Inl (PacketTooShort (length enc))"
    by (simp add: Decode_def)
next
  assume len: "2 \<le> length enc"
  then have ne: "enc \<noteq> []" by auto
  have h: "enc ! 0 = hd enc" using ne by (simp add: hd_conv_nth)
  have l: "enc ! (length enc - 1) = last enc" using ne by (simp add: last_conv_nth)
  show "hd enc \<noteq> Start \<Longrightarrow> Decode enc = Inl (ExpectedStart (hd enc))"
    using len h by (simp add: Decode_def)
  show "hd enc = Start \<Longrightarrow> last enc \<noteq> End \<Longrightarrow> Decode enc = Inl (ExpectedEnd (hd enc))"
    using len h l by (simp add: Decode_def)
qed

subsection \<open>Round trip of the fixed codec\<close>

lemma Bluefruit_escape:
  "spec_escape BluefruitEncoding s =
     (if s = Start then [Esc, StartEsc] else if s = End then [Esc, EndEsc]
      else if s = Esc then [Esc, EscEsc] else [s])"
  by (simp add: spec_escape_def spec_substitute_def Bluefruit_isValidControlChar IsReservedChar_def
      Bluefruit_bytes Bluefruit_runes fixed_bytes_distinct)

lemma well_escaped_body: "well_escaped (concat (map (spec_escape BluefruitEncoding) p))"
  by (induction p) (simp_all add: Bluefruit_escape is_substitute_def)

lemma unescape_body: "unescape (concat (map (spec_escape BluefruitEncoding) p)) = p"
  by (induction p)
    (simp_all add: Bluefruit_escape original_def Start_def End_def Esc_def StartEsc_def
      EndEsc_def EscEsc_def)

lemma spec_encode_Bluefruit:
  "spec_encode BluefruitEncoding p = Start # concat (map (spec_escape BluefruitEncoding) p) @ [End]"
proof -
  have "enc_Start BluefruitEncoding \<noteq> StartDisabled"
    by (simp add: BluefruitEncoding_def StartDisabled_def)
  then show ?thesis by (simp add: spec_encode_def Bluefruit_bytes)
qed

lemma Decode_frame:
  "Decode (Start # mid @ [End]) = Decode_loop mid []"
proof -
  have "well_framed (Start # mid @ [End])" by (simp add: well_framed_def)
  then show ?thesis by (simp add: Decode_well_framed interior_def butlast_append)
qed

lemma Decode_Encode: "Decode (spec_encode BluefruitEncoding p) = Inr p"
  using Decode_loop_prefix [OF well_escaped_body, of p "[]" "[]"]
  by (simp add: spec_encode_Bluefruit Decode_frame unescape_body)

lemma body_no_Start: "Start \<notin> set (concat (map (spec_escape BluefruitEncoding) p))"
  by (induction p) (auto simp: Bluefruit_escape Start_def StartEsc_def EndEsc_def EscEsc_def Esc_def)

lemma unescape_no_Esc: "Esc \<notin> set mid \<Longrightarrow> well_escaped mid \<and> unescape mid = mid"
  by (induction mid) auto

lemma Decode_loop_acc: "Decode_loop xs acc = Inr out \<Longrightarrow> \<exists>out'. out = acc @ out'"
proof (induction xs acc rule: Decode_loop.induct)
  case (1 data)
  then show ?case by simp
next
  case (2 e es data)
  show ?case
  proof (cases "e = Esc")
    case False
    with "2.prems" have "Decode_loop es (data @ [e]) = Inr out" by simp
    from "2.IH"(4) [OF False this] show ?thesis by auto
  next
    case True
    with "2.prems" obtain e' es' where es: "es = e' # es'" by (cases es) auto
    from "2.prems" True es consider
        (s) "e' = StartEsc" "Decode_loop es' (data @ [Start]) = Inr out"
      | (n) "e' \<noteq> StartEsc" "e' = EndEsc" "Decode_loop es' (data @ [End]) = Inr out"
      | (c) "e' \<noteq> StartEsc" "e' \<noteq> EndEsc" "e' = EscEsc" "Decode_loop es' (data @ [Esc]) = Inr out"
      by (auto split: if_splits)
    then show ?thesis
    proof cases
      case s
      from "2.IH"(1) [OF True es s] show ?thesis by auto
    next
      case n
      from "2.IH"(2) [OF True es n] show ?thesis by auto
    next
      case c
      from "2.IH"(3) [OF True es c] show ?thesis by auto
    qed
  qed
qed


section \<open>The split function\<close>

lemma scan_no_End:
  "\<forall>b\<in>set xs. rune_of b \<noteq> enc_End enc \<Longrightarrow>
   SplitPackets_scan enc xs i c =
     (- 1, c + int (length (filter (\<lambda>b. rune_of b \<noteq> enc_Esc enc) xs)))"
  by (induction xs arbitrary: i c) simp_all

lemma scan_End:
  "\<forall>b\<in>set xs. rune_of b \<noteq> enc_End enc \<Longrightarrow> rune_of e = enc_End enc \<Longrightarrow>
   SplitPackets_scan enc (xs @ e # rest) i c =
     (int (i + length xs), c + int (length (filter (\<lambda>b. rune_of b \<noteq> enc_Esc enc) xs)))"
  by (induction xs arbitrary: i c) simp_all

lemma Esc_rune: "is_byte (enc_Esc enc) \<Longrightarrow> rune_of (byte_of (enc_Esc enc)) = enc_Esc enc"
  by (simp add: is_byte_def rune_of_byte_of)

lemma escape_shape:
  assumes V: "valid_Encoding enc" and A: "EscStart_apart enc"
  shows "(spec_escape enc s = [s] \<and> rune_of s \<noteq> enc_Esc enc \<and> rune_of s \<noteq> enc_End enc) \<or>
    (\<exists>t. spec_escape enc s = [byte_of (enc_Esc enc), t] \<and> isValidControlEscChar enc t
        \<and> rune_of t \<noteq> enc_End enc \<and> rune_of t \<noteq> enc_Esc enc
        \<and> (rune_of t = enc_EscStart enc \<and> byte_of (enc_Start enc) = s
           \<or> rune_of t \<noteq> enc_EscStart enc \<and> rune_of t = enc_EscEnd enc \<and> byte_of (enc_End enc) = s
           \<or> rune_of t \<noteq> enc_EscStart enc \<and> rune_of t \<noteq> enc_EscEnd enc
              \<and> rune_of t = enc_EscEsc enc \<and> byte_of (enc_Esc enc) = s))"
proof (cases "isValidControlChar enc s")
  case False
  then show ?thesis
    by (auto simp: spec_escape_def isValidControlChar_def Let_def split: if_splits)
next
  case True
  have s: "byte_of (rune_of s) = s" by (rule byte_of_rune_of)
  have nd: "rune_of s \<noteq> StartDisabled" by (rule rune_of_not_disabled)
  have b: "is_byte (enc_End enc)" "is_byte (enc_EscEnd enc)" "is_byte (enc_Esc enc)"
    "is_byte (enc_EscEsc enc)"
    using V by (auto simp: valid_Encoding_def split: if_splits)
  have d: "enc_End enc \<noteq> enc_EscEnd enc" "enc_End enc \<noteq> enc_Esc enc" "enc_End enc \<noteq> enc_EscEsc enc"
    "enc_EscEnd enc \<noteq> enc_Esc enc" "enc_EscEnd enc \<noteq> enc_EscEsc enc" "enc_Esc enc \<noteq> enc_EscEsc enc"
    using V by (auto simp: valid_Encoding_def split: if_splits)
  have r: "rune_of (byte_of (enc_EscEnd enc)) = enc_EscEnd enc"
    "rune_of (byte_of (enc_EscEsc enc)) = enc_EscEsc enc"
    using b by (simp_all add: is_byte_def rune_of_byte_of)
  have "rune_of s = enc_Start enc \<or> rune_of s = enc_End enc \<or> rune_of s = enc_Esc enc"
    using True by (auto simp: isValidControlChar_def Let_def split: if_splits)
  then consider (S) "rune_of s = enc_Start enc"
    | (E) "rune_of s \<noteq> enc_Start enc" "rune_of s = enc_End enc"
    | (C) "rune_of s \<noteq> enc_Start enc" "rune_of s \<noteq> enc_End enc" "rune_of s = enc_Esc enc"
    by blast
  then show ?thesis
  proof cases
    case S
    then have en: "enc_Start enc \<noteq> StartDisabled" using nd by auto
    then have bs: "is_byte (enc_EscStart enc)"
      and ds: "enc_EscStart enc \<noteq> enc_End enc" "enc_EscStart enc \<noteq> enc_Esc enc"
      using V by (auto simp: valid_Encoding_def split: if_splits)
    have rs: "rune_of (byte_of (enc_EscStart enc)) = enc_EscStart enc"
      using bs by (simp add: is_byte_def rune_of_byte_of)
    have nds: "enc_EscStart enc \<noteq> StartDisabled"
      using rune_of_not_disabled [of "byte_of (enc_EscStart enc)"] rs by simp
    have sub: "spec_escape enc s = [byte_of (enc_Esc enc), byte_of (enc_EscStart enc)]"
      using True S by (simp add: spec_escape_def spec_substitute_def)
    have v: "isValidControlEscChar enc (byte_of (enc_EscStart enc))"
      using nds rs by (simp add: isValidControlEscChar_def)
    have o: "byte_of (enc_Start enc) = s" using S s by simp
    show ?thesis using sub v rs ds o by auto
  next
    case E
    have sub: "spec_escape enc s = [byte_of (enc_Esc enc), byte_of (enc_EscEnd enc)]"
      using True E by (simp add: spec_escape_def spec_substitute_def)
    have v: "isValidControlEscChar enc (byte_of (enc_EscEnd enc))"
      using r by (simp add: isValidControlEscChar_def)
    have o: "byte_of (enc_End enc) = s" using E s by simp
    have ns: "enc_EscEnd enc \<noteq> enc_EscStart enc" using A by (auto simp: EscStart_apart_def)
    show ?thesis using sub v r d o ns by auto
  next
    case C
    have sub: "spec_escape enc s = [byte_of (enc_Esc enc), byte_of (enc_EscEsc enc)]"
      using True C by (simp add: spec_escape_def spec_substitute_def)
    have v: "isValidControlEscChar enc (byte_of (enc_EscEsc enc))"
      using r by (simp add: isValidControlEscChar_def)
    have o: "byte_of (enc_Esc enc) = s" using C s by simp
    have ns: "enc_EscEsc enc \<noteq> enc_EscStart enc" using A by (auto simp: EscStart_apart_def)
    show ?thesis using sub v r d o ns by auto
  qed
qed

lemma decode_escape:
  assumes V: "valid_Encoding enc" and A: "EscStart_apart enc"
  shows "SplitPackets_decode enc adv (spec_escape enc s @ rest) i False (pre @ 0 # zs) (length pre)
    = SplitPackets_decode enc adv rest (i + length (spec_escape enc s)) False (pre @ s # zs)
        (Suc (length pre))"
proof -
  have be: "is_byte (enc_Esc enc)" using V by (auto simp: valid_Encoding_def split: if_splits)
  have re: "rune_of (byte_of (enc_Esc enc)) = enc_Esc enc" using be by (rule Esc_rune)
  from escape_shape [OF V A, of s] show ?thesis
  proof (elim disjE exE conjE)
    assume "spec_escape enc s = [s]" "rune_of s \<noteq> enc_Esc enc"
    then show ?thesis by (simp add: store_fill)
  next
    fix t assume "spec_escape enc s = [byte_of (enc_Esc enc), t]" "isValidControlEscChar enc t"
      "rune_of t = enc_EscStart enc" "byte_of (enc_Start enc) = s"
    then show ?thesis using re by (simp add: store_fill)
  next
    fix t assume "spec_escape enc s = [byte_of (enc_Esc enc), t]" "isValidControlEscChar enc t"
      "rune_of t \<noteq> enc_EscStart enc" "rune_of t = enc_EscEnd enc" "byte_of (enc_End enc) = s"
    then show ?thesis using re by (simp add: store_fill)
  next
    fix t assume "spec_escape enc s = [byte_of (enc_Esc enc), t]" "isValidControlEscChar enc t"
      "rune_of t \<noteq> enc_EscStart enc" "rune_of t \<noteq> enc_EscEnd enc" "rune_of t = enc_EscEsc enc"
      "byte_of (enc_Esc enc) = s"
    then show ?thesis using re by (simp add: store_fill)
  qed
qed

lemma decode_body:
  assumes V: "valid_Encoding enc" and A: "EscStart_apart enc"
  shows "SplitPackets_decode enc adv (concat (map (spec_escape enc) p)) i False
      (pre @ replicate (length p) 0) (length pre)
    = Inr (adv, Some (pre @ p), None)"
proof (induction p arbitrary: pre i)
  case Nil
  then show ?case by simp
next
  case (Cons s p)
  have "SplitPackets_decode enc adv (spec_escape enc s @ concat (map (spec_escape enc) p)) i False
      (pre @ 0 # replicate (length p) 0) (length pre)
    = SplitPackets_decode enc adv (concat (map (spec_escape enc) p))
        (i + length (spec_escape enc s)) False ((pre @ [s]) @ replicate (length p) 0)
        (length (pre @ [s]))"
    using decode_escape [OF V A, of adv s _ i pre "replicate (length p) 0"] by simp
  also have "\<dots> = Inr (adv, Some ((pre @ [s]) @ p), None)"
    by (rule Cons.IH)
  finally show ?case by simp
qed

lemma body_scan:
  assumes V: "valid_Encoding enc" and A: "EscStart_apart enc"
  shows "(\<forall>b\<in>set (concat (map (spec_escape enc) p)). rune_of b \<noteq> enc_End enc) \<and>
    length (filter (\<lambda>b. rune_of b \<noteq> enc_Esc enc) (concat (map (spec_escape enc) p))) = length p"
proof (induction p)
  case Nil
  then show ?case by simp
next
  case (Cons s p)
  have be: "is_byte (enc_Esc enc)" and ne: "enc_Esc enc \<noteq> enc_End enc"
    using V by (auto simp: valid_Encoding_def split: if_splits)
  have re: "rune_of (byte_of (enc_Esc enc)) = enc_Esc enc" using be by (rule Esc_rune)
  from escape_shape [OF V A, of s] Cons re ne show ?case by auto
qed


lemma pbind_Inr: "pbind (Inr x) f = f x"
  by (simp add: pbind_def)

lemma leading_start_le: "leading_start enc data \<le> 1"
  by (simp add: leading_start_def split: list.split)

lemma SplitPackets_found:
  assumes "SplitPackets_scan enc data 0 0 = (int e, n)" and "data \<noteq> []"
  shows "Encoding_SplitPackets enc data atEOF =
     pbind (make_bytes (n - int (leading_start enc data))) (\<lambda>token.
       SplitPackets_decode enc (int e + 1) (drop (leading_start enc data) (take e data))
         (leading_start enc data) False token 0)"
proof -
  from assms(2) obtain d0 ds where dd: "data = d0 # ds" by (cases data) simp_all
  have ne: "int e \<noteq> - 1" by simp
  show ?thesis
    unfolding Encoding_SplitPackets_def assms(1)
    unfolding leading_start_def dd
    using ne by (simp add: pbind_Inr)
qed

lemma SplitPackets_Encode:
  assumes V: "valid_Encoding enc" and A: "EscStart_apart enc"
  shows "Encoding_SplitPackets enc (spec_encode enc p) atEOF =
     Inr (int (length (spec_encode enc p)), Some p, None)"
proof -
  let ?P = "\<lambda>b. rune_of b \<noteq> enc_Esc enc"
  let ?body = "concat (map (spec_escape enc) p)"
  let ?e = "byte_of (enc_End enc)"
  let ?pre = "if enc_Start enc \<noteq> StartDisabled then [byte_of (enc_Start enc)] else []"
  let ?data = "spec_encode enc p"
  have bE: "is_byte (enc_End enc)" using V by (auto simp: valid_Encoding_def split: if_splits)
  have rE: "rune_of ?e = enc_End enc" using bE by (simp add: is_byte_def rune_of_byte_of)
  have noEnd: "\<forall>b\<in>set ?body. rune_of b \<noteq> enc_End enc"
    and cnt: "length (filter ?P ?body) = length p"
    using body_scan [OF V A, of p] by simp_all
  have d: "?data = (?pre @ ?body) @ ?e # []" by (simp add: spec_encode_def)
  have ne: "?data \<noteq> []" by (simp add: spec_encode_def)
  have pre: "(\<forall>b\<in>set ?pre. rune_of b \<noteq> enc_End enc) \<and> length (filter ?P ?pre) = length ?pre
      \<and> leading_start enc ?data = length ?pre"
  proof (cases "enc_Start enc = StartDisabled")
    case True
    have "leading_start enc ?data = 0" using True by (simp add: leading_start_def split: list.split)
    with True show ?thesis by simp
  next
    case False
    have bS: "is_byte (enc_Start enc)"
      and nS: "enc_Start enc \<noteq> enc_End enc" "enc_Start enc \<noteq> enc_Esc enc"
      using V False by (auto simp: valid_Encoding_def split: if_splits)
    have rS: "rune_of (byte_of (enc_Start enc)) = enc_Start enc"
      using bS by (simp add: is_byte_def rune_of_byte_of)
    have "leading_start enc ?data = 1"
      using False rS by (simp add: leading_start_def spec_encode_def)
    with False rS nS show ?thesis by simp
  qed
  have noEnd': "\<forall>b\<in>set (?pre @ ?body). rune_of b \<noteq> enc_End enc"
    using noEnd pre by auto
  have cnt': "length (filter ?P (?pre @ ?body)) = length ?pre + length p"
    using cnt pre by simp
  have scan: "SplitPackets_scan enc ?data 0 0
      = (int (length (?pre @ ?body)), int (length ?pre + length p))"
    unfolding d cnt' [symmetric] using scan_End [OF noEnd' rE, of "[]" 0 0] by simp
  have ls: "leading_start enc ?data = length ?pre" using pre by simp
  have mk: "make_bytes (int (length ?pre + length p) - int (length ?pre))
      = Inr (replicate (length p) 0)"
    using make_bytes_nat [of "length p"] by simp
  have tk: "drop (length ?pre) (take (length (?pre @ ?body)) ?data) = ?body"
    unfolding d by simp
  have dec: "SplitPackets_decode enc adv ?body i False (replicate (length p) 0) 0
      = Inr (adv, Some p, None)" for adv i
    using decode_body [OF V A, of adv p i "[]"] by simp
  have len: "int (length (?pre @ ?body)) + 1 = int (length ?data)"
    unfolding d by simp
  show ?thesis
    unfolding SplitPackets_found [OF scan ne] ls mk tk pbind_Inr len by (rule dec)
qed

lemma scan_result:
  "SplitPackets_scan enc xs i c = (e, n) \<Longrightarrow>
   e = - 1 \<or> (\<exists>k < length xs. e = int (i + k) \<and> rune_of (xs ! k) = enc_End enc
                \<and> (\<forall>m < k. rune_of (xs ! m) \<noteq> enc_End enc))"
proof (induction xs arbitrary: i c)
  case Nil
  then show ?case by simp
next
  case (Cons b bs)
  show ?case
  proof (cases "rune_of b = enc_End enc")
    case True
    with Cons.prems have "e = int (i + 0)" by simp
    with True show ?thesis by auto
  next
    case False
    from Cons.prems False obtain c' where "SplitPackets_scan enc bs (i + 1) c' = (e, n)"
      by (auto split: if_splits)
    from Cons.IH [OF this] show ?thesis
    proof
      assume "e = - 1" then show ?thesis by simp
    next
      assume "\<exists>k<length bs. e = int (i + 1 + k) \<and> rune_of (bs ! k) = enc_End enc
          \<and> (\<forall>m<k. rune_of (bs ! m) \<noteq> enc_End enc)"
      then obtain k where k: "k < length bs" "e = int (i + 1 + k)"
        "rune_of (bs ! k) = enc_End enc" "\<forall>m<k. rune_of (bs ! m) \<noteq> enc_End enc" by blast
      have "\<forall>m<Suc k. rune_of ((b # bs) ! m) \<noteq> enc_End enc"
        using False k(4) by (auto simp: less_Suc_eq_0_disj)
      with k have "Suc k < length (b # bs) \<and> e = int (i + Suc k)
          \<and> rune_of ((b # bs) ! Suc k) = enc_End enc
          \<and> (\<forall>m<Suc k. rune_of ((b # bs) ! m) \<noteq> enc_End enc)" by simp
      then show ?thesis by blast
    qed
  qed
qed

lemma decode_error_index:
  "SplitPackets_decode enc adv bs i0 inEsc token j
      = Inr (adv', tok, Some (InvalidControlCharError i c)) \<Longrightarrow>
   \<exists>k < length bs. i = int (i0 + k) \<and> bs ! k = c \<and> \<not> isValidControlEscChar enc c
      \<and> (if k = 0 then inEsc else rune_of (bs ! (k - 1)) = enc_Esc enc)"
proof (induction bs arbitrary: i0 inEsc token j)
  case Nil
  then show ?case by simp
next
  case (Cons b bs)
  show ?case
  proof (cases "inEsc \<and> \<not> isValidControlEscChar enc b")
    case True
    with Cons.prems have "i = int (i0 + 0)" "b = c" by simp_all
    with True show ?thesis by auto
  next
    case False
    from Cons.prems False obtain inEsc' token' j' where
      rec: "SplitPackets_decode enc adv bs (i0 + 1) inEsc' token' j'
          = Inr (adv', tok, Some (InvalidControlCharError i c))"
      and st: "inEsc' \<longrightarrow> rune_of b = enc_Esc enc"
      by (auto split: if_splits sum.splits)
    from Cons.IH [OF rec] obtain k where k: "k < length bs" "i = int (i0 + 1 + k)" "bs ! k = c"
      "\<not> isValidControlEscChar enc c"
      "if k = 0 then inEsc' else rune_of (bs ! (k - 1)) = enc_Esc enc" by blast
    have "rune_of ((b # bs) ! (Suc k - 1)) = enc_Esc enc"
      using k(5) st by (cases k) auto
    with k have "Suc k < length (b # bs) \<and> i = int (i0 + Suc k) \<and> (b # bs) ! Suc k = c
        \<and> \<not> isValidControlEscChar enc c
        \<and> (if Suc k = 0 then inEsc else rune_of ((b # bs) ! (Suc k - 1)) = enc_Esc enc)"
      by simp
    then show ?thesis by blast
  qed
qed


lemma SplitPackets_error_index:
  assumes "Encoding_SplitPackets enc data atEOF
      = Inr (adv, tok, Some (InvalidControlCharError i c))"
  shows "0 < i \<and> nat i < length data \<and> data ! nat i = c
      \<and> rune_of (data ! (nat i - 1)) = enc_Esc enc \<and> \<not> isValidControlEscChar enc c"
proof -
  obtain e n where sc: "SplitPackets_scan enc data 0 0 = (e, n)"
    by (cases "SplitPackets_scan enc data 0 0")
  have e: "e \<noteq> - 1" using assms sc by (auto simp: Encoding_SplitPackets_def split: if_splits)
  with scan_result [OF sc] obtain k where k: "k < length data" "e = int k" by auto
  have ne: "data \<noteq> []" using k(1) by auto
  let ?s = "leading_start enc data"
  let ?span = "drop ?s (take k data)"
  have sc': "SplitPackets_scan enc data 0 0 = (int k, n)" using sc k(2) by simp
  from assms obtain token where
    dec: "SplitPackets_decode enc (int k + 1) ?span ?s False token 0
        = Inr (adv, tok, Some (InvalidControlCharError i c))"
    unfolding SplitPackets_found [OF sc' ne] by (auto simp: pbind_def split: sum.splits)
  from decode_error_index [OF dec] obtain m where m: "m < length ?span" "i = int (?s + m)"
    "?span ! m = c" "\<not> isValidControlEscChar enc c"
    "if m = 0 then False else rune_of (?span ! (m - 1)) = enc_Esc enc"
    by blast
  from m(5) have m0: "0 < m" and pe: "rune_of (?span ! (m - 1)) = enc_Esc enc"
    by (auto split: if_splits)
  have lt: "?s + m < k" using m(1) k(1) by simp
  have c: "data ! (?s + m) = c" using m(3) lt k(1) by simp
  have "?span ! (m - 1) = data ! (?s + (m - 1))" using lt k(1) m0 by simp
  then have p: "rune_of (data ! (?s + m - 1)) = enc_Esc enc" using pe m0 by simp
  have ni: "nat i = ?s + m" using m(2) by simp
  have ip: "0 < i" using m(2) m0 by simp
  show ?thesis unfolding ni using ip m(4) lt k(1) c p by simp
qed

lemma valid_esc_cases:
  "isValidControlEscChar enc c \<Longrightarrow>
   rune_of c = enc_EscStart enc \<or> rune_of c = enc_EscEnd enc \<or> rune_of c = enc_EscEsc enc"
  by (auto simp: isValidControlEscChar_def Let_def split: if_splits)

lemma decode_pair:
  assumes "rune_of x = enc_Esc enc" "isValidControlEscChar enc c"
  shows "SplitPackets_decode enc adv (x # c # rest) i False (pre @ 0 # zs) (length pre)
    = SplitPackets_decode enc adv rest (i + 2) False (pre @ cfg_original enc c # zs)
        (Suc (length pre))"
  using assms valid_esc_cases [OF assms(2)]
  by (auto simp: cfg_original_def store_fill)

lemma decode_lit:
  assumes "rune_of b \<noteq> enc_Esc enc"
  shows "SplitPackets_decode enc adv (b # rest) i False (pre @ 0 # zs) (length pre)
    = SplitPackets_decode enc adv rest (i + 1) False (pre @ b # zs) (Suc (length pre))"
  using assms by (simp add: store_fill)

lemma decode_prefix:
  "cfg_well_escaped enc w \<Longrightarrow> length (cfg_unescape enc w) \<le> k \<Longrightarrow>
   SplitPackets_decode enc adv (w @ rest) i False (pre @ replicate k 0) (length pre)
    = SplitPackets_decode enc adv rest (i + length w) False
        (pre @ cfg_unescape enc w @ replicate (k - length (cfg_unescape enc w)) 0)
        (length pre + length (cfg_unescape enc w))"
proof (induction enc w arbitrary: pre k i rule: cfg_well_escaped.induct)
  case (1 enc)
  then show ?case by simp
next
  case (2 enc b bs)
  show ?case
  proof (cases "rune_of b = enc_Esc enc")
    case False
    with "2.prems" have we: "cfg_well_escaped enc bs"
      and le: "Suc (length (cfg_unescape enc bs)) \<le> k" by simp_all
    then obtain k' where k: "k = Suc k'" and le': "length (cfg_unescape enc bs) \<le> k'"
      by (cases k) auto
    have "SplitPackets_decode enc adv (b # bs @ rest) i False (pre @ 0 # replicate k' 0) (length pre)
      = SplitPackets_decode enc adv (bs @ rest) (i + 1) False ((pre @ [b]) @ replicate k' 0)
          (length (pre @ [b]))"
      using decode_lit [OF False, of adv "bs @ rest" i pre "replicate k' 0"] by simp
    also have "\<dots> = SplitPackets_decode enc adv rest (i + 1 + length bs) False
        ((pre @ [b]) @ cfg_unescape enc bs @ replicate (k' - length (cfg_unescape enc bs)) 0)
        (length (pre @ [b]) + length (cfg_unescape enc bs))"
      by (rule "2.IH"(2) [OF False we le'])
    finally show ?thesis using False k by simp
  next
    case True
    with "2.prems"(1) obtain c cs where bs: "bs = c # cs" and v: "isValidControlEscChar enc c"
      and we: "cfg_well_escaped enc cs"
      by (cases bs) auto
    from "2.prems"(2) True bs obtain k' where k: "k = Suc k'"
      and le': "length (cfg_unescape enc cs) \<le> k'"
      by (cases k) auto
    have "SplitPackets_decode enc adv (b # c # cs @ rest) i False (pre @ 0 # replicate k' 0)
        (length pre)
      = SplitPackets_decode enc adv (cs @ rest) (i + 2) False
          ((pre @ [cfg_original enc c]) @ replicate k' 0) (length (pre @ [cfg_original enc c]))"
      using decode_pair [OF True v, of adv "cs @ rest" i pre "replicate k' 0"] by simp
    also have "\<dots> = SplitPackets_decode enc adv rest (i + 2 + length cs) False
        ((pre @ [cfg_original enc c]) @ cfg_unescape enc cs
           @ replicate (k' - length (cfg_unescape enc cs)) 0)
        (length (pre @ [cfg_original enc c]) + length (cfg_unescape enc cs))"
      by (rule "2.IH"(1) [OF True bs we le'])
    finally show ?thesis using True k bs by simp
  qed
qed

lemma valid_esc_not_Esc:
  "Esc_apart enc \<Longrightarrow> isValidControlEscChar enc c \<Longrightarrow> rune_of c \<noteq> enc_Esc enc"
  using valid_esc_cases [of enc c] by (auto simp: Esc_apart_def)

lemma unescape_count:
  "Esc_apart enc \<Longrightarrow> cfg_well_escaped enc w \<Longrightarrow>
   length (cfg_unescape enc w) = length (filter (\<lambda>b. rune_of b \<noteq> enc_Esc enc) w)"
proof (induction enc w rule: cfg_well_escaped.induct)
  case (1 enc)
  then show ?case by simp
next
  case (2 enc b bs)
  show ?case
  proof (cases "rune_of b = enc_Esc enc")
    case False
    with 2 show ?thesis by simp
  next
    case True
    with "2.prems"(2) obtain c cs where bs: "bs = c # cs" and v: "isValidControlEscChar enc c"
      and we: "cfg_well_escaped enc cs"
      by (cases bs) auto
    have ne: "rune_of c \<noteq> enc_Esc enc" using "2.prems"(1) v by (rule valid_esc_not_Esc)
    show ?thesis using True bs ne "2.IH"(1) [OF True bs "2.prems"(1) we] by simp
  qed
qed


lemma decode_bad:
  "rune_of x = enc_Esc enc \<Longrightarrow> \<not> isValidControlEscChar enc c \<Longrightarrow>
   SplitPackets_decode enc adv (x # c # rest) i False token j
     = Inr (adv, Some token, Some (InvalidControlCharError (int (i + 1)) c))"
  by simp

lemma decode_span_invalid:
  assumes EA: "Esc_apart enc" and we: "cfg_well_escaped enc w"
    and x: "rune_of x = enc_Esc enc" and nv: "\<not> isValidControlEscChar enc c"
    and n: "length (filter (\<lambda>b. rune_of b \<noteq> enc_Esc enc) w) \<le> n"
  shows "\<exists>tok. SplitPackets_decode enc adv (w @ x # c # rest) i False (replicate n 0) 0
     = Inr (adv, Some tok, Some (InvalidControlCharError (int (i + length w + 1)) c))"
proof -
  have le: "length (cfg_unescape enc w) \<le> n" using unescape_count [OF EA we] n by simp
  show ?thesis
    using decode_prefix [OF we le, of adv "x # c # rest" i "[]"] decode_bad [OF x nv]
    by simp
qed

lemma SplitPackets_invalid:
  assumes EA: "Esc_apart enc"
    and data: "data = pre @ w @ x # c # rest @ y # tail"
    and lp: "length pre = leading_start enc data"
    and noEnd: "\<forall>b\<in>set (pre @ w @ x # c # rest). rune_of b \<noteq> enc_End enc"
    and y: "rune_of y = enc_End enc" and x: "rune_of x = enc_Esc enc"
    and we: "cfg_well_escaped enc w" and nv: "\<not> isValidControlEscChar enc c"
  shows "\<exists>tok. Encoding_SplitPackets enc data atEOF
     = Inr (int (length (pre @ w @ x # c # rest)) + 1, Some tok,
            Some (InvalidControlCharError (int (length pre + length w + 1)) c))"
proof -
  let ?P = "\<lambda>b. rune_of b \<noteq> enc_Esc enc"
  let ?span = "w @ x # c # rest"
  let ?n = "length (filter ?P ?span)"
  let ?e = "length (pre @ ?span)"
  have d: "data = (pre @ ?span) @ y # tail" using data by simp
  have ne: "data \<noteq> []" using data by simp
  have fp: "length (filter ?P pre) = length pre"
  proof (cases pre)
    case Nil
    then show ?thesis by simp
  next
    case (Cons d0 ds)
    with d have dd: "data = d0 # (ds @ ?span) @ y # tail" by simp
    have "length pre \<le> 1" unfolding lp by (rule leading_start_le)
    with Cons have ds: "ds = []" by simp
    have "leading_start enc data = 1" using lp Cons ds by simp
    then have "rune_of d0 = enc_Start enc"
      unfolding dd leading_start_def by (simp split: if_splits)
    then have "rune_of d0 \<noteq> enc_Esc enc" using EA by (simp add: Esc_apart_def)
    then show ?thesis using Cons ds by simp
  qed
  have cnt: "length (filter ?P (pre @ ?span)) = length pre + ?n"
    using fp by simp
  have scan: "SplitPackets_scan enc data 0 0 = (int ?e, int (length pre + ?n))"
    unfolding d cnt [symmetric] using scan_End [of "pre @ ?span" enc y tail 0 0] noEnd y by simp
  have mk: "make_bytes (int (length pre + ?n) - int (length pre)) = Inr (replicate ?n 0)"
    using make_bytes_nat [of ?n] by simp
  have tk: "drop (length pre) (take ?e data) = ?span" unfolding d by simp
  have wn: "length (filter ?P w) \<le> ?n" by simp
  from decode_span_invalid [OF EA we x nv wn, of "int ?e + 1" rest "length pre"] obtain tok where
    dec: "SplitPackets_decode enc (int ?e + 1) ?span (length pre) False (replicate ?n 0) 0
     = Inr (int ?e + 1, Some tok,
         Some (InvalidControlCharError (int (length pre + length w + 1)) c))"
    by blast
  have "Encoding_SplitPackets enc data atEOF
     = Inr (int ?e + 1, Some tok,
         Some (InvalidControlCharError (int (length pre + length w + 1)) c))"
    unfolding SplitPackets_found [OF scan ne] lp [symmetric] mk tk pbind_Inr
    using dec by simp
  then show ?thesis by blast
qed


section \<open>The claims\<close>

text \<open>
  C1, as the specification states it: for every payload the fixed decoder returns the
  payload from the fixed encoder's output, and for every configuration whose active control
  bytes and substitutes are pairwise distinct the split function returns the payload, the
  length of the encoding and no error from the configurable encoder's output. The second
  part fails for \<open>StartlessEncoding\<close>: its active bytes are four distinct bytes, its
  encoding of the payload C0 is DB DC C0, and the split function takes DC for the
  substitute of the disabled start byte and returns FF, the low byte of \<^verbatim>\<open>StartDisabled\<close>.
\<close>

theorem roundtrip_StartlessEncoding_counterexample:
  "valid_Encoding StartlessEncoding \<and>
   Encoding_Encode StartlessEncoding [0xC0] = Inr [0xDB, 0xDC, 0xC0] \<and>
   Encoding_SplitPackets StartlessEncoding [0xDB, 0xDC, 0xC0] False = Inr (3, Some [0xFF], None) \<and>
   Encoding_SplitPackets StartlessEncoding [0xDB, 0xDC, 0xC0] False \<noteq> Inr (3, Some [0xC0], None)"
  by code_simp

text \<open>
  C1, amended: the fixed codec round-trips every payload; the configurable codec
  round-trips every payload through the split function, with either value of \<^verbatim>\<open>atEOF\<close>,
  for every configuration whose active control bytes and substitutes are pairwise distinct
  and whose field \<^verbatim>\<open>EscStart\<close> differs from \<^verbatim>\<open>EscEnd\<close> and \<^verbatim>\<open>EscEsc\<close> also when the start
  byte is disabled.
\<close>

theorem roundtrip:
  "(\<exists>e. Encode p = Inr e \<and> Decode e = Inr p) \<and>
   (valid_Encoding enc \<and> EscStart_apart enc \<longrightarrow>
      (\<exists>e. Encoding_Encode enc p = Inr e \<and>
           Encoding_SplitPackets enc e atEOF = Inr (int (length e), Some p, None)))"
  by (simp add: Encode_spec Decode_Encode Encoding_Encode_spec SplitPackets_Encode)

theorem roundtrip_witness:
  "(\<exists>e. Encoding_Encode StdEncoding [0x01, 0xC0, 0xDB] = Inr e \<and>
        Encoding_SplitPackets StdEncoding e False = Inr (int (length e), Some [0x01, 0xC0, 0xDB], None)) \<and>
   (\<exists>e. Encoding_Encode BluefruitEncoding [0xAB, 0xBC, 0xCD] = Inr e \<and>
        Encoding_SplitPackets BluefruitEncoding e True = Inr (int (length e), Some [0xAB, 0xBC, 0xCD], None))"
proof -
  have s: "valid_Encoding StdEncoding \<and> EscStart_apart StdEncoding" by code_simp
  have b: "valid_Encoding BluefruitEncoding \<and> EscStart_apart BluefruitEncoding" by code_simp
  show ?thesis
    using roundtrip [of "[0x01, 0xC0, 0xDB]" StdEncoding False] s
      roundtrip [of "[0xAB, 0xBC, 0xCD]" BluefruitEncoding True] b
    by blast
qed

text \<open>
  C2. Length: for every configuration and every payload the configurable encoder returns a
  buffer of exactly \<^verbatim>\<open>EncodedLen\<close> bytes, and \<^verbatim>\<open>EncodedLen\<close> is the payload's length plus 2
  when the start byte is enabled (1 otherwise) plus the number of payload bytes that are
  control bytes of the configuration; the fixed encoder returns a buffer of
  \<^verbatim>\<open>len(data) + 2 + ReservedCharCount(data)\<close> bytes.
\<close>

theorem Encode_length:
  "(\<exists>dst. Encoding_Encode enc src = Inr dst \<and> length dst = EncodedLen enc src) \<and>
   EncodedLen enc src =
     length src + (if enc_Start enc \<noteq> StartDisabled then 2 else 1)
       + length (filter (isValidControlChar enc) src) \<and>
   (\<exists>e. Encode data = Inr e \<and> length e = length data + 2 + ReservedCharCount data)"
proof -
  have a: "\<exists>dst. Encoding_Encode enc src = Inr dst \<and> length dst = EncodedLen enc src"
    by (simp add: Encoding_Encode_spec length_spec_encode)
  have b: "EncodedLen enc src =
     length src + (if enc_Start enc \<noteq> StartDisabled then 2 else 1)
       + length (filter (isValidControlChar enc) src)"
    by (simp add: EncodedLen_def minLength_def controlCharCount_filter)
  have en: "enc_Start BluefruitEncoding \<noteq> StartDisabled"
    by (simp add: BluefruitEncoding_def StartDisabled_def)
  have c: "\<exists>e. Encode data = Inr e \<and> length e = length data + 2 + ReservedCharCount data"
    using en
    by (simp add: Encode_spec length_spec_encode EncodedLen_def minLength_def
        Bluefruit_controlCharCount)
  from a b c show ?thesis by blast
qed

text \<open>
  C3. The fixed decoder fails exactly when the buffer has fewer than two bytes, or its first
  byte is not 0xAB, or its last byte is not 0xBC, or the interior ends with the escape byte,
  or some byte of the interior that follows an escape byte is not a substitute; every other
  buffer decodes. Each failure has its own error, tested in this order: too short, wrong
  start, wrong end, and then the first fault of the interior met from the left, which is
  either an escape byte with nothing after it or the byte after an escape byte.
\<close>

theorem Decode_error_taxonomy:
  "(length enc < 2 \<longrightarrow> Decode enc = Inl (PacketTooShort (length enc))) \<and>
   (2 \<le> length enc \<and> hd enc \<noteq> Start \<longrightarrow> Decode enc = Inl (ExpectedStart (hd enc))) \<and>
   (2 \<le> length enc \<and> hd enc = Start \<and> last enc \<noteq> End \<longrightarrow>
      Decode enc = Inl (ExpectedEnd (hd enc))) \<and>
   (well_framed enc \<and> truncated_escape (interior enc) \<longrightarrow>
      Decode enc = Inl EscapeAtEndOfBuffer) \<and>
   (well_framed enc \<and> invalid_escape_at (interior enc) i \<longrightarrow>
      Decode enc = Inl (ExpectedEscapedChar (interior enc ! (i + 1)))) \<and>
   (Decode enc = Inl (PacketTooShort n) \<longrightarrow> length enc < 2 \<and> n = length enc) \<and>
   (Decode enc = Inl (ExpectedStart s) \<longrightarrow> 2 \<le> length enc \<and> hd enc \<noteq> Start \<and> s = hd enc) \<and>
   (Decode enc = Inl (ExpectedEnd s) \<longrightarrow> 2 \<le> length enc \<and> last enc \<noteq> End) \<and>
   (Decode enc = Inl EscapeAtEndOfBuffer \<longrightarrow> esc_is_last (interior enc)) \<and>
   (Decode enc = Inl (ExpectedEscapedChar c) \<longrightarrow>
      (Esc, c) \<in> set (zip (interior enc) (tl (interior enc))) \<and> \<not> is_substitute c) \<and>
   ((\<exists>e. Decode enc = Inl e) \<longleftrightarrow>
      length enc < 2 \<or> hd enc \<noteq> Start \<or> last enc \<noteq> End
        \<or> esc_is_last (interior enc) \<or> bad_follower (interior enc)) \<and>
   ((\<exists>data. Decode enc = Inr data) \<longleftrightarrow>
      \<not> (length enc < 2 \<or> hd enc \<noteq> Start \<or> last enc \<noteq> End
        \<or> esc_is_last (interior enc) \<or> bad_follower (interior enc)))"
proof -
  let ?mid = "interior enc"
  have short: "length enc < 2 \<Longrightarrow> Decode enc = Inl (PacketTooShort (length enc))"
    by (rule Decode_not_framed)
  have nostart: "2 \<le> length enc \<Longrightarrow> hd enc \<noteq> Start \<Longrightarrow> Decode enc = Inl (ExpectedStart (hd enc))"
    by (rule Decode_not_framed)
  have noend: "2 \<le> length enc \<Longrightarrow> hd enc = Start \<Longrightarrow> last enc \<noteq> End
      \<Longrightarrow> Decode enc = Inl (ExpectedEnd (hd enc))"
    by (rule Decode_not_framed)
  have trunc: "well_framed enc \<Longrightarrow> truncated_escape ?mid \<Longrightarrow> Decode enc = Inl EscapeAtEndOfBuffer"
    by (simp add: Decode_well_framed Decode_loop_truncated)
  have inval: "well_framed enc \<Longrightarrow> invalid_escape_at ?mid k
      \<Longrightarrow> Decode enc = Inl (ExpectedEscapedChar (?mid ! (k + 1)))" for k
    by (simp add: Decode_well_framed Decode_loop_invalid)
  have ok: "well_framed enc \<Longrightarrow> well_escaped ?mid \<Longrightarrow> Decode enc = Inr (unescape ?mid)"
    using Decode_loop_prefix [of ?mid "[]" "[]"] by (simp add: Decode_well_framed)
  have framed: "well_framed enc \<or> length enc < 2 \<or> (2 \<le> length enc \<and> hd enc \<noteq> Start)
      \<or> (2 \<le> length enc \<and> hd enc = Start \<and> last enc \<noteq> End)"
    by (auto simp: well_framed_def)
  have tri: "well_escaped ?mid \<or> truncated_escape ?mid \<or> (\<exists>k. invalid_escape_at ?mid k)"
    by (rule escape_trichotomy)
  have res: "Decode enc = Inl (PacketTooShort (length enc)) \<and> length enc < 2
      \<or> Decode enc = Inl (ExpectedStart (hd enc)) \<and> 2 \<le> length enc \<and> hd enc \<noteq> Start
      \<or> Decode enc = Inl (ExpectedEnd (hd enc)) \<and> 2 \<le> length enc \<and> last enc \<noteq> End
      \<or> Decode enc = Inl EscapeAtEndOfBuffer \<and> well_framed enc \<and> truncated_escape ?mid
      \<or> (\<exists>k. Decode enc = Inl (ExpectedEscapedChar (?mid ! (k + 1))) \<and> well_framed enc
            \<and> invalid_escape_at ?mid k)
      \<or> Decode enc = Inr (unescape ?mid) \<and> well_framed enc \<and> well_escaped ?mid"
  proof -
    from framed consider (wf) "well_framed enc" | (a) "length enc < 2"
      | (b) "2 \<le> length enc" "hd enc \<noteq> Start"
      | (c) "2 \<le> length enc" "hd enc = Start" "last enc \<noteq> End" by blast
    then show ?thesis
    proof cases
      case a
      with short show ?thesis by simp
    next
      case b
      with nostart show ?thesis by simp
    next
      case c
      with noend show ?thesis by simp
    next
      case wf
      from tri consider (w) "well_escaped ?mid" | (t) "truncated_escape ?mid"
        | (i) k where "invalid_escape_at ?mid k" by blast
      then show ?thesis
      proof cases
        case w
        with ok wf show ?thesis by simp
      next
        case t
        with trunc wf show ?thesis by simp
      next
        case i
        with inval [OF wf] wf show ?thesis by blast
      qed
    qed
  qed
  have c3: "Decode enc = Inl (PacketTooShort n) \<longrightarrow> length enc < 2 \<and> n = length enc"
    using res by (elim disjE exE conjE) auto
  have c4: "Decode enc = Inl (ExpectedStart s) \<longrightarrow> 2 \<le> length enc \<and> hd enc \<noteq> Start \<and> s = hd enc"
    using res by (elim disjE exE conjE) auto
  have c5: "Decode enc = Inl (ExpectedEnd s) \<longrightarrow> 2 \<le> length enc \<and> last enc \<noteq> End"
    using res by (elim disjE exE conjE) auto
  have c6: "Decode enc = Inl EscapeAtEndOfBuffer \<longrightarrow> esc_is_last ?mid"
    using res truncated_escape_literal [of ?mid] by (elim disjE exE conjE) auto
  have c7: "Decode enc = Inl (ExpectedEscapedChar c) \<longrightarrow>
      (Esc, c) \<in> set (zip ?mid (tl ?mid)) \<and> \<not> is_substitute c"
  proof
    assume d: "Decode enc = Inl (ExpectedEscapedChar c)"
    with res obtain k where k: "invalid_escape_at ?mid k" and c: "c = ?mid ! (k + 1)"
      by (elim disjE exE conjE) auto
    from k have len: "k + 1 < length ?mid" and e: "?mid ! k = Esc"
      and ns: "\<not> is_substitute (?mid ! (k + 1))"
      by (auto simp: invalid_escape_at_def)
    have "k < length (zip ?mid (tl ?mid))" using len by simp
    then have "zip ?mid (tl ?mid) ! k \<in> set (zip ?mid (tl ?mid))" by (rule nth_mem)
    moreover have "zip ?mid (tl ?mid) ! k = (?mid ! k, ?mid ! (k + 1))"
      using len by (simp add: nth_tl)
    ultimately show "(Esc, c) \<in> set (zip ?mid (tl ?mid)) \<and> \<not> is_substitute c"
      using e ns c by simp
  qed
  let ?bad = "length enc < 2 \<or> hd enc \<noteq> Start \<or> last enc \<noteq> End
        \<or> esc_is_last ?mid \<or> bad_follower ?mid"
  have good: "well_framed enc \<Longrightarrow> well_escaped ?mid \<Longrightarrow> \<not> ?bad"
    using well_escaped_literal [of ?mid] by (simp add: well_framed_def)
  have c8: "(\<exists>e. Decode enc = Inl e) \<longleftrightarrow> ?bad"
    using res
  proof (elim disjE exE conjE)
    assume "Decode enc = Inr (unescape ?mid)" "well_framed enc" "well_escaped ?mid"
    with good show ?thesis by simp
  next
    assume "Decode enc = Inl EscapeAtEndOfBuffer" "truncated_escape ?mid"
    with truncated_escape_literal [of ?mid] show ?thesis by simp
  next
    fix k assume "Decode enc = Inl (ExpectedEscapedChar (?mid ! (k + 1)))"
      "invalid_escape_at ?mid k"
    with invalid_escape_literal [of ?mid k] show ?thesis by simp
  qed simp_all
  have c9: "(\<exists>data. Decode enc = Inr data) \<longleftrightarrow> \<not> ?bad"
    unfolding c8 [symmetric] by (cases "Decode enc") simp_all
  show ?thesis
    apply (intro conjI)
    using short apply blast
    using nostart apply blast
    using noend apply blast
    using trunc apply blast
    using inval [of i] apply blast
    using c3 apply blast
    using c4 apply blast
    using c5 apply blast
    using c6 apply blast
    using c7 apply blast
    using c8 apply blast
    using c9 apply blast
    done
qed

theorem Decode_error_taxonomy_witness:
  "Decode [] = Inl (PacketTooShort 0) \<and>
   Decode [0x00, 0xBC] = Inl (ExpectedStart 0x00) \<and>
   Decode [0xAB, 0x00] = Inl (ExpectedEnd 0xAB) \<and>
   Decode [0xAB, 0xCD, 0xBC] = Inl EscapeAtEndOfBuffer \<and>
   Decode [0xAB, 0xCD, 0x01, 0xBC] = Inl (ExpectedEscapedChar 0x01) \<and>
   (\<exists>data. Decode [0xAB, 0x06, 0xCD, 0xCE, 0xBC] = Inr data)"
proof -
  have a: "length ([]::byte list) < 2" by simp
  have b: "2 \<le> length [0x00, 0xBC :: byte] \<and> hd [0x00, 0xBC :: byte] \<noteq> Start"
    by (simp add: Start_def)
  have c: "2 \<le> length [0xAB, 0x00 :: byte] \<and> hd [0xAB, 0x00 :: byte] = Start
      \<and> last [0xAB, 0x00 :: byte] \<noteq> End"
    by (simp add: Start_def End_def)
  have d: "well_framed [0xAB, 0xCD, 0xBC] \<and> truncated_escape (interior [0xAB, 0xCD, 0xBC])"
    by (simp add: well_framed_def truncated_escape_def interior_def Start_def End_def Esc_def)
  have e: "well_framed [0xAB, 0xCD, 0x01, 0xBC]
      \<and> invalid_escape_at (interior [0xAB, 0xCD, 0x01, 0xBC]) 0"
    by (simp add: well_framed_def invalid_escape_at_def interior_def is_substitute_def
        Start_def End_def Esc_def StartEsc_def EndEsc_def EscEsc_def)
  have f: "\<not> (length [0xAB, 0x06, 0xCD, 0xCE, 0xBC :: byte] < 2
      \<or> hd [0xAB, 0x06, 0xCD, 0xCE, 0xBC] \<noteq> Start
      \<or> last [0xAB, 0x06, 0xCD, 0xCE, 0xBC] \<noteq> End
      \<or> esc_is_last (interior [0xAB, 0x06, 0xCD, 0xCE, 0xBC])
      \<or> bad_follower (interior [0xAB, 0x06, 0xCD, 0xCE, 0xBC]))"
    by (simp add: esc_is_last_def bad_follower_def interior_def is_substitute_def
        Start_def End_def Esc_def StartEsc_def EndEsc_def EscEsc_def)
  have ra: "Decode [] = Inl (PacketTooShort (length ([]::byte list)))"
    using Decode_error_taxonomy [of "[]" 0 0 0 0] a by blast
  have rb: "Decode [0x00, 0xBC] = Inl (ExpectedStart (hd [0x00, 0xBC]))"
    using Decode_error_taxonomy [of "[0x00, 0xBC]" 0 0 0 0] b by blast
  have rc: "Decode [0xAB, 0x00] = Inl (ExpectedEnd (hd [0xAB, 0x00]))"
    using Decode_error_taxonomy [of "[0xAB, 0x00]" 0 0 0 0] c by blast
  have rd: "Decode [0xAB, 0xCD, 0xBC] = Inl EscapeAtEndOfBuffer"
    using Decode_error_taxonomy [of "[0xAB, 0xCD, 0xBC]" 0 0 0 0] d by blast
  have re: "Decode [0xAB, 0xCD, 0x01, 0xBC]
      = Inl (ExpectedEscapedChar (interior [0xAB, 0xCD, 0x01, 0xBC] ! (0 + 1)))"
    using Decode_error_taxonomy [of "[0xAB, 0xCD, 0x01, 0xBC]" 0 0 0 0] e by blast
  have rf: "\<exists>data. Decode [0xAB, 0x06, 0xCD, 0xCE, 0xBC] = Inr data"
    using Decode_error_taxonomy [of "[0xAB, 0x06, 0xCD, 0xCE, 0xBC]" 0 0 0 0] f by blast
  have e1: "interior [0xAB, 0xCD, 0x01, 0xBC] ! (0 + 1) = (0x01 :: byte)"
    by (simp add: interior_def)
  show ?thesis
    unfolding ra rb rc rd re e1 using rf by simp
qed

text \<open>
  C4. When the buffer holds no end byte of the configuration, the split function with
  \<^verbatim>\<open>atEOF = false\<close> consumes nothing and returns no token and no error; with
  \<^verbatim>\<open>atEOF = true\<close> it consumes the whole buffer and returns it as the token together with
  \<^verbatim>\<open>io.EOF\<close>, which is not an \<^verbatim>\<open>InvalidControlCharError\<close>.
\<close>

theorem SplitPackets_no_End:
  assumes "\<forall>b\<in>set data. rune_of b \<noteq> enc_End enc"
  shows "Encoding_SplitPackets enc data False = Inr (0, None, None) \<and>
     Encoding_SplitPackets enc data True = Inr (int (length data), Some data, Some EOF) \<and>
     EOF \<noteq> InvalidControlCharError i b"
  using scan_no_End [OF assms, of 0 0] by (simp add: Encoding_SplitPackets_def)

theorem SplitPackets_no_End_witness:
  "Encoding_SplitPackets StdEncoding [0x01, 0xDB, 0xDC, 0x02] False = Inr (0, None, None) \<and>
   Encoding_SplitPackets StdEncoding [0x01, 0xDB, 0xDC, 0x02] True =
     Inr (4, Some [0x01, 0xDB, 0xDC, 0x02], Some EOF)"
proof -
  have "\<forall>b\<in>set [0x01, 0xDB, 0xDC, 0x02]. rune_of b \<noteq> enc_End StdEncoding"
    by (simp add: StdEncoding_def rune_of_def)
  from SplitPackets_no_End [OF this] show ?thesis by simp
qed

text \<open>
  C5. Over the bytes 01 02 03 C0 04 DB DC C0 DB DD 05 C0 the split function of the standard
  profile, called on what remains after each advance, returns the packets 01 02 03, then
  04 C0, then DB 05, each with advance 4 and no error; the advances add up to the 12
  bytes of the input, nothing remains, and on the empty rest at the end of the source it
  reports \<^verbatim>\<open>io.EOF\<close> without advancing.
\<close>

theorem SplitPackets_stream:
  "Encoding_SplitPackets StdEncoding TestStandardScanner_input atEOF =
     Inr (4, Some [0x01, 0x02, 0x03], None) \<and>
   Encoding_SplitPackets StdEncoding (drop 4 TestStandardScanner_input) atEOF =
     Inr (4, Some [0x04, 0xC0], None) \<and>
   Encoding_SplitPackets StdEncoding (drop (4 + 4) TestStandardScanner_input) atEOF =
     Inr (4, Some [0xDB, 0x05], None) \<and>
   4 + 4 + 4 = length TestStandardScanner_input \<and>
   drop (4 + 4 + 4) TestStandardScanner_input = [] \<and>
   Encoding_SplitPackets StdEncoding (drop (4 + 4 + 4) TestStandardScanner_input) True =
     Inr (0, Some [], Some EOF)"
  by (cases atEOF; code_simp)

text \<open>
  C6. The claim asks the split function to report an error when the first end byte comes
  directly after the escape byte, as the fixed decoder does for an escape byte at the end
  of the interior. The split function returns the bytes decoded so far with no error: on
  01 DB C0 under the standard profile and on AB CD BC under the Bluefruit profile, where
  the fixed decoder rejects AB CD BC.
\<close>

theorem SplitPackets_escape_before_End:
  "Encoding_SplitPackets StdEncoding [0x01, 0xDB, 0xC0] atEOF = Inr (3, Some [0x01], None) \<and>
   Encoding_SplitPackets BluefruitEncoding [0xAB, 0xCD, 0xBC] atEOF = Inr (3, Some [], None) \<and>
   Decode [0xAB, 0xCD, 0xBC] = Inl EscapeAtEndOfBuffer"
  by (cases atEOF; code_simp)

text \<open>
  C7, as the specification states it: the index of an \<^verbatim>\<open>InvalidControlCharError\<close> is the
  position of the offending byte in the scanned span, which starts after the leading start
  byte. On the test input AB 04 CD AB CD BD BC of the Bluefruit profile the span starts at
  index 1 and the offending byte AB is its byte 2, yet the error carries index 3.
\<close>

theorem SplitPackets_error_index_counterexample:
  "Encoding_SplitPackets BluefruitEncoding TestBluefruitScanner_invalid False =
     Inr (7, Some [0x04, 0x00, 0x00], Some (InvalidControlCharError 3 0xAB)) \<and>
   leading_start BluefruitEncoding TestBluefruitScanner_invalid = 1 \<and>
   drop 1 TestBluefruitScanner_invalid ! 2 = 0xAB \<and>
   drop 1 TestBluefruitScanner_invalid ! 3 \<noteq> 0xAB"
  by code_simp

text \<open>
  C7, amended: the index of an \<^verbatim>\<open>InvalidControlCharError\<close> is the position of the offending
  byte in the buffer given to the split function, which is its position in the scanned span
  only when no leading start byte is skipped. Whenever the split function returns such an
  error, the buffer holds the reported byte at the reported index, directly after an escape
  byte, and the byte is no valid substitute. Conversely, when the escape byte differs from
  the start byte and from the substitutes, and the span before the first end byte is a
  span of plain bytes and valid escape pairs followed by the escape byte and a byte that
  is no valid substitute, the split function returns the error with that byte and its
  index in the buffer.
\<close>

theorem SplitPackets_error_index_in_buffer:
  "(Encoding_SplitPackets enc data atEOF = Inr (adv, tok, Some (InvalidControlCharError i c)) \<longrightarrow>
      0 < i \<and> nat i < length data \<and> data ! nat i = c
        \<and> rune_of (data ! (nat i - 1)) = enc_Esc enc \<and> \<not> isValidControlEscChar enc c) \<and>
   (Esc_apart enc \<and> buf = pre @ w @ x # c' # rest @ y # tail
      \<and> length pre = leading_start enc buf
      \<and> (\<forall>b\<in>set (pre @ w @ x # c' # rest). rune_of b \<noteq> enc_End enc)
      \<and> rune_of y = enc_End enc \<and> rune_of x = enc_Esc enc
      \<and> cfg_well_escaped enc w \<and> \<not> isValidControlEscChar enc c' \<longrightarrow>
      (\<exists>tok'. Encoding_SplitPackets enc buf atEOF' =
          Inr (int (length (pre @ w @ x # c' # rest)) + 1, Some tok',
               Some (InvalidControlCharError (int (length pre + length w + 1)) c'))))"
  using SplitPackets_error_index [of enc data atEOF adv tok i c]
    SplitPackets_invalid [of enc buf pre w x c' rest y tail atEOF']
  by blast

theorem SplitPackets_error_index_in_buffer_witness:
  "(\<exists>tok'. Encoding_SplitPackets BluefruitEncoding TestBluefruitScanner_invalid False =
      Inr (7, Some tok', Some (InvalidControlCharError 3 0xAB))) \<and>
   TestBluefruitScanner_invalid ! 3 = 0xAB \<and>
   rune_of (TestBluefruitScanner_invalid ! 2) = enc_Esc BluefruitEncoding"
proof -
  have r: "Encoding_SplitPackets BluefruitEncoding TestBluefruitScanner_invalid False =
     Inr (7, Some [0x04, 0x00, 0x00], Some (InvalidControlCharError 3 0xAB))"
    by code_simp
  have h: "Esc_apart BluefruitEncoding
      \<and> TestBluefruitScanner_invalid = [0xAB] @ [0x04] @ 0xCD # 0xAB # [0xCD, 0xBD] @ 0xBC # []
      \<and> length [0xAB :: byte] = leading_start BluefruitEncoding TestBluefruitScanner_invalid
      \<and> (\<forall>b\<in>set ([0xAB] @ [0x04] @ 0xCD # 0xAB # [0xCD, 0xBD]).
            rune_of b \<noteq> enc_End BluefruitEncoding)
      \<and> rune_of 0xBC = enc_End BluefruitEncoding \<and> rune_of 0xCD = enc_Esc BluefruitEncoding
      \<and> cfg_well_escaped BluefruitEncoding [0x04]
      \<and> \<not> isValidControlEscChar BluefruitEncoding 0xAB"
    by code_simp
  have n: "int (length ([0xAB :: byte] @ [0x04] @ 0xCD # 0xAB # [0xCD, 0xBD])) + 1 = 7"
    "int (length [0xAB :: byte] + length [0x04 :: byte] + 1) = 3" "nat 3 = 3" "nat 3 - 1 = 2"
    by simp_all
  show ?thesis
    using SplitPackets_error_index_in_buffer [of BluefruitEncoding TestBluefruitScanner_invalid
        False 7 "Some [0x04, 0x00, 0x00]" 3 "0xAB" TestBluefruitScanner_invalid "[0xAB]" "[0x04]"
        "0xCD" "0xAB" "[0xCD, 0xBD]" "0xBC" "[]" False] r h n
    by simp
qed

text \<open>
  C8. The fixed encoder and the configurable encoder with the Bluefruit profile
  (start 0xAB/0xAC, end 0xBC/0xBD, esc 0xCD/0xCE) return the same bytes for every payload.
\<close>

theorem Encode_eq_Bluefruit_Encode:
  "Encode p = Encoding_Encode BluefruitEncoding p"
  by (simp add: Encode_spec Encoding_Encode_spec)

text \<open>
  C9. Both encoders are total and never panic: for every configuration and payload the
  result is the one encoding the specification describes, of \<^verbatim>\<open>EncodedLen\<close> bytes; the
  loop of the configurable encoder, started on the allocated buffer, leaves with every
  input byte encoded and with \<^verbatim>\<open>j\<close> on the last cell, still unwritten, where the end byte
  then lands.
\<close>

theorem Encode_total:
  "Encoding_Encode enc src = Inr (spec_encode enc src) \<and>
   Encode src = Inr (spec_encode BluefruitEncoding src) \<and>
   length (spec_encode enc src) = EncodedLen enc src \<and>
   Encoding_Encode enc src =
     pbind (Encoding_Encode_loop enc src (fst (Encode_initial enc src))
              (snd (Encode_initial enc src)))
       (\<lambda>(dst, j). store dst j (byte_of (enc_End enc))) \<and>
   Encoding_Encode_loop enc src (fst (Encode_initial enc src)) (snd (Encode_initial enc src)) =
     Inr (butlast (spec_encode enc src) @ [0], EncodedLen enc src - 1) \<and>
   last (spec_encode enc src) = byte_of (enc_End enc)"
proof -
  have "last (spec_encode enc src) = byte_of (enc_End enc)"
    by (simp add: spec_encode_def)
  then show ?thesis
    using Encoding_Encode_spec [of enc src] Encode_spec [of src] length_spec_encode [of enc src]
      Encoding_Encode_initial [of enc src] Encoding_Encode_loop_initial [of enc src]
    by simp
qed

text \<open>
  C10, as it is stated: in a well-framed buffer the fixed decoder copies every interior
  byte other than the escape byte 0xCD unchanged to the output, a raw start or end byte
  included, and never rejects such a byte. This fails for the byte directly after an
  escape byte: in AB CD AB BC and in AB CD BC BC the raw start byte and the raw end byte
  after 0xCD are rejected, and in AB CD CE BC the byte CE is not copied but stands for CD.
\<close>

theorem Decode_lenient_counterexample:
  "well_framed [0xAB, 0xCD, 0xAB, 0xBC] \<and>
   Decode [0xAB, 0xCD, 0xAB, 0xBC] = Inl (ExpectedEscapedChar 0xAB) \<and>
   well_framed [0xAB, 0xCD, 0xBC, 0xBC] \<and>
   Decode [0xAB, 0xCD, 0xBC, 0xBC] = Inl (ExpectedEscapedChar 0xBC) \<and>
   well_framed [0xAB, 0xCD, 0xCE, 0xBC] \<and>
   Decode [0xAB, 0xCD, 0xCE, 0xBC] = Inr [0xCD]"
  by code_simp

text \<open>
  C10, amended: in a well-framed buffer the fixed decoder appends unchanged every interior
  byte that it meets outside an escape pair and that is not the escape byte, a raw start or
  end byte included, and goes on with the rest: such a byte is never rejected and stands in
  the output right after the bytes decoded before it. A framed interior without escape
  byte is returned as it is. So AB AB BC BC decodes to AB BC, and no payload is encoded
  to it.
\<close>

theorem Decode_lenient:
  "(well_framed enc \<and> interior enc = pre @ b # rest \<and> well_escaped pre \<and> b \<noteq> Esc \<longrightarrow>
      Decode enc = Decode_loop rest (unescape pre @ [b])) \<and>
   (well_framed enc \<and> interior enc = pre @ b # rest \<and> well_escaped pre \<and> b \<noteq> Esc
      \<and> Decode enc = Inr out \<longrightarrow> (\<exists>out'. out = unescape pre @ b # out')) \<and>
   (Esc \<notin> set mid \<longrightarrow> Decode (Start # mid @ [End]) = Inr mid) \<and>
   Decode [Start, Start, End, End] = Inr [Start, End] \<and>
   (\<forall>p. Encode p \<noteq> Inr [Start, Start, End, End])"
proof -
  have a: "well_framed enc \<and> interior enc = pre @ b # rest \<and> well_escaped pre \<and> b \<noteq> Esc \<longrightarrow>
      Decode enc = Decode_loop rest (unescape pre @ [b])"
  proof
    assume h: "well_framed enc \<and> interior enc = pre @ b # rest \<and> well_escaped pre \<and> b \<noteq> Esc"
    then have "Decode enc = Decode_loop (pre @ b # rest) []" by (simp add: Decode_well_framed)
    also have "\<dots> = Decode_loop (b # rest) (unescape pre)"
      using h Decode_loop_prefix [of pre "b # rest" "[]"] by simp
    also have "\<dots> = Decode_loop rest (unescape pre @ [b])" using h by simp
    finally show "Decode enc = Decode_loop rest (unescape pre @ [b])" .
  qed
  have a': "well_framed enc \<and> interior enc = pre @ b # rest \<and> well_escaped pre \<and> b \<noteq> Esc
      \<and> Decode enc = Inr out \<longrightarrow> (\<exists>out'. out = unescape pre @ b # out')"
  proof
    assume h: "well_framed enc \<and> interior enc = pre @ b # rest \<and> well_escaped pre \<and> b \<noteq> Esc
      \<and> Decode enc = Inr out"
    with a have "Decode_loop rest (unescape pre @ [b]) = Inr out" by simp
    from Decode_loop_acc [OF this] show "\<exists>out'. out = unescape pre @ b # out'" by simp
  qed
  have b: "Esc \<notin> set mid \<longrightarrow> Decode (Start # mid @ [End]) = Inr mid"
    using Decode_loop_prefix [of mid "[]" "[]"] unescape_no_Esc [of mid]
    by (simp add: Decode_frame)
  have c: "Decode [Start, Start, End, End] = Inr [Start, End]"
    by (simp add: Decode_def Start_def End_def Esc_def)
  have d: "\<forall>p. Encode p \<noteq> Inr [Start, Start, End, End]"
  proof
    fix p
    show "Encode p \<noteq> Inr [Start, Start, End, End]"
    proof
      assume "Encode p = Inr [Start, Start, End, End]"
      then have "concat (map (spec_escape BluefruitEncoding) p) @ [End] = [Start, End] @ [End]"
        by (simp add: Encode_spec spec_encode_Bluefruit)
      then have "concat (map (spec_escape BluefruitEncoding) p) = [Start, End]"
        by (simp only: append_same_eq)
      then have "Start \<in> set (concat (map (spec_escape BluefruitEncoding) p))" by simp
      with body_no_Start show False by blast
    qed
  qed
  from a a' b c d show ?thesis by blast
qed

theorem Decode_lenient_witness:
  "Decode [0xAB, 0xCD, 0xCE, 0xAB, 0xBC, 0xBC] = Decode_loop [0xBC] [0xCD, 0xAB] \<and>
   Decode (Start # [0xAB, 0x01, 0xBC] @ [End]) = Inr [0xAB, 0x01, 0xBC]"
proof -
  have h1: "well_framed [0xAB, 0xCD, 0xCE, 0xAB, 0xBC, 0xBC]
      \<and> interior [0xAB, 0xCD, 0xCE, 0xAB, 0xBC, 0xBC] = [0xCD, 0xCE] @ 0xAB # [0xBC]
      \<and> well_escaped [0xCD, 0xCE] \<and> (0xAB :: byte) \<noteq> Esc"
    by (simp add: well_framed_def interior_def is_substitute_def
        Start_def End_def Esc_def StartEsc_def EndEsc_def EscEsc_def)
  have u: "unescape [0xCD, 0xCE] @ [0xAB] = [0xCD, 0xAB]"
    by (simp add: original_def Esc_def StartEsc_def EndEsc_def EscEsc_def)
  have h2: "Esc \<notin> set [0xAB, 0x01, 0xBC]" by (simp add: Esc_def)
  show ?thesis
    using Decode_lenient [of "[0xAB, 0xCD, 0xCE, 0xAB, 0xBC, 0xBC]" "[0xCD, 0xCE]" "0xAB" "[0xBC]"
        "[]" "[0xAB, 0x01, 0xBC]"] h1 h2 u
    by (simp add: Esc_def)
qed

end
